theory Spec2Isabelle
  imports Main "HOL-Library.Word"
begin

unbundle bit_operations_syntax

section \<open>The UVM channel layer (nvidia-uvm/uvm\_channel.c)\<close>

text \<open>
  A shallow embedding of the parts of \<^verbatim>\<open>uvm_channel.c\<close> that decide ring admission,
  push submission, progress reclamation, error reporting, copy-engine selection and the
  module-parameter configuration.  Machine integers keep their width: \<^verbatim>\<open>NvU32\<close> is a
  32-bit word, \<^verbatim>\<open>NvU64\<close> a 64-bit word, and C's \<^verbatim>\<open>int\<close> results are read with
  \<open>sint\<close>.  Pointers into arrays owned by the channel are array indices.
\<close>

type_synonym NvU32 = "32 word"
type_synonym NvU64 = "64 word"

datatype NV_STATUS =
    NV_OK
  | NV_ERR_GENERIC
  | NV_ERR_NO_MEMORY
  | NV_ERR_NOT_SUPPORTED
  | NV_ERR_OPERATING_SYSTEM
  | NV_ERR_ECC_ERROR
  | NV_ERR_RC_ERROR

subsection \<open>Copy-engine capabilities and channel types\<close>

text \<open>
  \<^verbatim>\<open>uvm_channel_type_t\<close>, in the order of the enumeration (the order
  \<^verbatim>\<open>uvm_channel_type_to_string\<close> lists, with \<^verbatim>\<open>UVM_CHANNEL_TYPE_COUNT = 5\<close>).
\<close>

datatype uvm_channel_type_t =
    UVM_CHANNEL_TYPE_CPU_TO_GPU
  | UVM_CHANNEL_TYPE_GPU_TO_CPU
  | UVM_CHANNEL_TYPE_GPU_INTERNAL
  | UVM_CHANNEL_TYPE_MEMOPS
  | UVM_CHANNEL_TYPE_GPU_TO_GPU

text \<open>
  \<^verbatim>\<open>UvmGpuCopyEngineCaps\<close>: the one-bit flags are booleans, the PCE mask is an
  \<^verbatim>\<open>NvU32\<close>.
\<close>

record UvmGpuCopyEngineCaps =
  supported :: bool
  grce :: bool
  shared :: bool
  sysmemRead :: bool
  sysmemWrite :: bool
  sysmem :: bool
  nvlinkP2p :: bool
  p2p :: bool
  cePceMask :: NvU32

text \<open>
  \<^verbatim>\<open>ce_usable_for_channel_type\<close>: the early return on \<^verbatim>\<open>!supported || grce\<close>, then the
  switch on the type.
\<close>

definition ce_usable_for_channel_type :: "uvm_channel_type_t \<Rightarrow> UvmGpuCopyEngineCaps \<Rightarrow> bool" where
  "ce_usable_for_channel_type type cap =
     (if \<not> supported cap \<or> grce cap then False
      else (case type of
              UVM_CHANNEL_TYPE_CPU_TO_GPU \<Rightarrow> sysmem cap
            | UVM_CHANNEL_TYPE_GPU_TO_CPU \<Rightarrow> sysmem cap
            | UVM_CHANNEL_TYPE_GPU_INTERNAL \<Rightarrow> True
            | UVM_CHANNEL_TYPE_MEMOPS \<Rightarrow> True
            | UVM_CHANNEL_TYPE_GPU_TO_GPU \<Rightarrow> p2p cap))"

subsection \<open>Faults\<close>

text \<open>
  Where the C code leaves what it was written for (a failed \<^verbatim>\<open>UVM_ASSERT\<close> on a
  precondition of the callers inside the driver, a remainder by zero, a read or write
  outside an array or through \<^verbatim>\<open>NULL\<close>), the model returns a fault and says nothing of
  what follows.  A function that can fault has the result type \<open>fault + 'a\<close>.  The one
  assertion that module parameters given by the user can fail, that of
  \<^verbatim>\<open>string_to_buffer_location\<close>, is not a stop: the source shows the statements after
  a failed assertion running, so there the failure is recorded and the function goes on.
\<close>

datatype fault =
    Assertion_failed string
  | Division_by_zero
  | Invalid_access

subsection \<open>Channel data\<close>

datatype uvm_channel_update_mode_t =
    UVM_CHANNEL_UPDATE_MODE_COMPLETED
  | UVM_CHANNEL_UPDATE_MODE_FORCE_ALL

text \<open>
  A GPFIFO entry.  \<open>push_info\<close> points into the channel's \<open>push_infos\<close> array: it is the
  index of the record it points to, and \<open>None\<close> is \<^verbatim>\<open>NULL\<close> (the state of an entry of
  the zero-filled array before its first use).
\<close>

record uvm_gpfifo_entry_t =
  tracking_semaphore_value :: NvU64
  pushbuffer_offset :: NvU32
  pushbuffer_size :: NvU32
  push_info :: "nat option"

record uvm_push_info_t =
  on_complete :: "nat option"
  on_complete_data :: "nat option"

text \<open>
  The calls the channel code makes into its collaborators (the HAL, the pushbuffer, the
  log) and its memory barriers, in program order.  The pool lock is not modelled: each
  function below is one critical section, or is executed alone.
\<close>

datatype external_call =
    Ce_semaphore_release NvU64 NvU32
  | Host_set_gpfifo_entry NvU32 NvU64 NvU32
  | Mb
  | Host_write_gpu_put NvU32
  | Pushbuffer_end_push uvm_gpfifo_entry_t
  | Wmb
  | Pushbuffer_mark_completed uvm_gpfifo_entry_t
  | Err_print_channel_error
  | Err_print_fatal_push nat

text \<open>
  \<^verbatim>\<open>uvm_channel_t\<close>: the ring, the reservation counter, the push-info free list (a list
  of indices into \<open>push_infos\<close>, head first), the queued value of the tracking semaphore,
  the error notifier word of \<^verbatim>\<open>channel_info\<close>, and the log of external calls.
  \<open>semaphore_gpu_va\<close> is what \<^verbatim>\<open>uvm_channel_tracking_semaphore_get_gpu_va\<close> returns.
\<close>

record uvm_channel_t =
  num_gpfifo_entries :: NvU32
  cpu_put :: NvU32
  gpu_get :: NvU32
  current_pushes_count :: NvU32
  gpfifo_entries :: "uvm_gpfifo_entry_t list"
  push_infos :: "uvm_push_info_t list"
  available_push_infos :: "nat list"
  queued_value :: NvU64
  semaphore_gpu_va :: NvU64
  errorNotifier_status :: "16 word"
  external_calls :: "external_call list"

text \<open>
  \<^verbatim>\<open>uvm_push_t\<close>, as far as the channel layer reads and writes it.  \<open>push_get_size\<close>,
  \<open>pushbuffer_offset_for_push\<close> and \<open>pushbuffer_gpu_va_for_push\<close> are what
  \<^verbatim>\<open>uvm_push_get_size\<close>, \<^verbatim>\<open>uvm_pushbuffer_get_offset_for_push\<close> and
  \<^verbatim>\<open>uvm_pushbuffer_get_gpu_va_for_push\<close> return for the push.
\<close>

record uvm_push_t =
  channel_tracking_value :: NvU64
  push_info_index :: NvU32
  push_get_size :: NvU32
  pushbuffer_offset_for_push :: NvU32
  pushbuffer_gpu_va_for_push :: NvU64

definition call :: "external_call \<Rightarrow> uvm_channel_t \<Rightarrow> uvm_channel_t" where
  "call c channel = channel\<lparr>external_calls := external_calls channel @ [c]\<rparr>"

subsection \<open>Admission\<close>

definition channel_is_available :: "uvm_channel_t \<Rightarrow> fault + bool" where
  "channel_is_available channel =
     (if num_gpfifo_entries channel = 0 then Inl Division_by_zero
      else
        let next_put = (cpu_put channel + current_pushes_count channel + 1)
                         mod num_gpfifo_entries channel
        in Inr (next_put \<noteq> gpu_get channel))"

definition try_claim_channel :: "uvm_channel_t \<Rightarrow> fault + (bool \<times> uvm_channel_t)" where
  "try_claim_channel channel =
     (case channel_is_available channel of
        Inl f \<Rightarrow> Inl f
      | Inr available \<Rightarrow>
          if available
          then Inr (True, channel\<lparr>current_pushes_count := current_pushes_count channel + 1\<rparr>)
          else Inr (False, channel))"

text \<open>
  \<open>n\<close> calls of \<^verbatim>\<open>try_claim_channel\<close> one after the other, with nothing in between;
  the results are listed in call order.
\<close>

fun try_claim_times :: "nat \<Rightarrow> uvm_channel_t \<Rightarrow> fault + (bool list \<times> uvm_channel_t)" where
  "try_claim_times 0 channel = Inr ([], channel)"
| "try_claim_times (Suc n) channel =
     (case try_claim_channel channel of
        Inl f \<Rightarrow> Inl f
      | Inr (claimed, channel') \<Rightarrow>
          (case try_claim_times n channel' of
             Inl f \<Rightarrow> Inl f
           | Inr (rest, channel'') \<Rightarrow> Inr (claimed # rest, channel'')))"

subsection \<open>Ending a push\<close>

text \<open>
  \<^verbatim>\<open>uvm_channel_end_push\<close>.  \<open>max_push_size\<close> is the constant \<^verbatim>\<open>UVM_MAX_PUSH_SIZE\<close>.
  The statements are taken in program order; the GPFIFO entry at \<open>cpu_put\<close> gets all four
  of its fields written, \<open>push_info\<close> with the address of
  \<^verbatim>\<open>push_infos[push->push_info_index]\<close>.
\<close>

definition uvm_channel_end_push ::
    "NvU32 \<Rightarrow> uvm_push_t \<Rightarrow> uvm_channel_t \<Rightarrow> fault + (uvm_push_t \<times> uvm_channel_t)" where
  "uvm_channel_end_push max_push_size push channel =
     (let new_tracking_value = queued_value channel + 1;
          channel1 = channel\<lparr>queued_value := new_tracking_value\<rparr>;
          new_payload = (ucast new_tracking_value :: NvU32);
          channel2 = call (Ce_semaphore_release (semaphore_gpu_va channel1) new_payload) channel1;
          push_size = push_get_size push
      in
        if \<not> push_size \<le> max_push_size
        then Inl (Assertion_failed ''push_size <= UVM_MAX_PUSH_SIZE'')
        else if num_gpfifo_entries channel2 = 0 then Inl Division_by_zero
        else
          let cpu_put_l = cpu_put channel2;
              new_cpu_put = (cpu_put_l + 1) mod num_gpfifo_entries channel2
          in
            if length (gpfifo_entries channel2) \<le> unat cpu_put_l then Inl Invalid_access
            else
              let entry = \<lparr>tracking_semaphore_value = new_tracking_value,
                           pushbuffer_offset = pushbuffer_offset_for_push push,
                           pushbuffer_size = push_size,
                           push_info = Some (unat (push_info_index push))\<rparr>;
                  channel3 = channel2\<lparr>gpfifo_entries :=
                               (gpfifo_entries channel2)[unat cpu_put_l := entry]\<rparr>;
                  push1 = push\<lparr>push_info_index := - 1\<rparr>;
                  pushbuffer_va = pushbuffer_gpu_va_for_push push1
              in
                if \<not> current_pushes_count channel3 > 0
                then Inl (Assertion_failed ''channel->current_pushes_count > 0'')
                else
                  let channel4 = channel3\<lparr>current_pushes_count :=
                                   current_pushes_count channel3 - 1\<rparr>;
                      channel5 = call (Host_set_gpfifo_entry cpu_put_l pushbuffer_va push_size)
                                   channel4;
                      channel6 = call Mb channel5;
                      channel7 = channel6\<lparr>cpu_put := new_cpu_put\<rparr>;
                      channel8 = call (Host_write_gpu_put new_cpu_put) channel7;
                      channel9 = call (Pushbuffer_end_push entry) channel8;
                      channel10 = call Wmb channel9
                  in Inr (push1\<lparr>channel_tracking_value := new_tracking_value\<rparr>, channel10))"

subsection \<open>Reclaiming completed entries\<close>

text \<open>
  The \<^verbatim>\<open>while\<close> loop of \<^verbatim>\<open>uvm_channel_update_progress_with_max\<close>, with its locals
  \<open>gpu_get_l\<close> and \<open>completed_count\<close>.  Each round reads the entry at \<open>gpu_get_l\<close>, leaves
  the loop in \<open>COMPLETED\<close> mode when the entry's value is above \<open>completed_value\<close>,
  and otherwise tells the pushbuffer, appends the entry's push-info to the free list and
  steps \<open>gpu_get_l\<close> round the ring.  \<open>completed_value\<close> is what
  \<^verbatim>\<open>uvm_channel_update_completed_value\<close> returned before the lock was taken.
\<close>

function update_progress_loop ::
    "uvm_channel_t \<Rightarrow> NvU64 \<Rightarrow> NvU32 \<Rightarrow> uvm_channel_update_mode_t \<Rightarrow> NvU32 \<Rightarrow> NvU32
      \<Rightarrow> fault + (NvU32 \<times> uvm_channel_t)" where
  "update_progress_loop channel completed_value max_to_complete mode gpu_get_l completed_count =
     (if gpu_get_l \<noteq> cpu_put channel \<and> completed_count < max_to_complete then
        (if length (gpfifo_entries channel) \<le> unat gpu_get_l then Inl Invalid_access
         else
           let entry = gpfifo_entries channel ! unat gpu_get_l in
             if mode = UVM_CHANNEL_UPDATE_MODE_COMPLETED
                \<and> tracking_semaphore_value entry > completed_value
             then Inr (gpu_get_l, channel)
             else
               (case push_info entry of
                  None \<Rightarrow> Inl Invalid_access
                | Some info \<Rightarrow>
                    if num_gpfifo_entries channel = 0 then Inl Division_by_zero
                    else
                      update_progress_loop
                        ((call (Pushbuffer_mark_completed entry) channel)
                           \<lparr>available_push_infos := available_push_infos channel @ [info]\<rparr>)
                        completed_value max_to_complete mode
                        ((gpu_get_l + 1) mod num_gpfifo_entries channel)
                        (completed_count + 1)))
      else Inr (gpu_get_l, channel))"
  by pat_completeness auto
termination
proof (relation "measure (\<lambda>(channel, completed_value, max_to_complete, mode, gpu_get_l,
                             completed_count). unat max_to_complete - unat completed_count)")
  show "wf (measure (\<lambda>(channel, completed_value, max_to_complete, mode, gpu_get_l,
                      completed_count). unat max_to_complete - unat completed_count))"
    by simp
next
  fix channel :: uvm_channel_t and completed_value :: NvU64
    and max_to_complete completed_count gpu_get_l :: NvU32
    and mode :: uvm_channel_update_mode_t and entry info
  assume "gpu_get_l \<noteq> cpu_put channel \<and> completed_count < max_to_complete"
  then have lt: "unat completed_count < unat max_to_complete"
    by (simp add: word_less_nat_alt)
  have "unat max_to_complete < 2 ^ 32"
    using unsigned_less [of max_to_complete, where 'a = nat] by simp
  with lt have "unat (completed_count + 1) = unat completed_count + 1"
    by (simp add: unat_word_ariths)
  with lt show
    "((call (Pushbuffer_mark_completed entry) channel
         \<lparr>available_push_infos := available_push_infos channel @ [info]\<rparr>,
       completed_value, max_to_complete, mode,
       (gpu_get_l + 1) mod num_gpfifo_entries channel, completed_count + 1),
      (channel, completed_value, max_to_complete, mode, gpu_get_l, completed_count))
     \<in> measure (\<lambda>(channel, completed_value, max_to_complete, mode, gpu_get_l,
                   completed_count). unat max_to_complete - unat completed_count)"
    by simp
qed

declare update_progress_loop.simps [simp del]

text \<open>
  \<^verbatim>\<open>uvm_channel_update_progress_with_max\<close>: the loop from the channel's \<open>gpu_get\<close>, the
  store of the new \<open>gpu_get\<close>, and the count of entries still pending, which is returned.
\<close>

definition uvm_channel_update_progress_with_max ::
    "uvm_channel_t \<Rightarrow> NvU64 \<Rightarrow> NvU32 \<Rightarrow> uvm_channel_update_mode_t
      \<Rightarrow> fault + (NvU32 \<times> uvm_channel_t)" where
  "uvm_channel_update_progress_with_max channel completed_value max_to_complete mode =
     (let cpu_put_l = cpu_put channel in
      case update_progress_loop channel completed_value max_to_complete mode
             (gpu_get channel) 0 of
        Inl f \<Rightarrow> Inl f
      | Inr (gpu_get_l, channel1) \<Rightarrow>
          let channel2 = channel1\<lparr>gpu_get := gpu_get_l\<rparr>;
              pending_gpfifos =
                (if cpu_put_l \<ge> gpu_get_l then cpu_put_l - gpu_get_l
                 else num_gpfifo_entries channel2 - gpu_get_l + cpu_put_l)
          in Inr (pending_gpfifos, channel2))"

definition uvm_channel_update_progress ::
    "uvm_channel_t \<Rightarrow> NvU64 \<Rightarrow> fault + (NvU32 \<times> uvm_channel_t)" where
  "uvm_channel_update_progress channel completed_value =
     uvm_channel_update_progress_with_max channel completed_value 8
       UVM_CHANNEL_UPDATE_MODE_COMPLETED"

definition channel_update_progress_all ::
    "uvm_channel_t \<Rightarrow> NvU64 \<Rightarrow> uvm_channel_update_mode_t \<Rightarrow> fault + (NvU32 \<times> uvm_channel_t)" where
  "channel_update_progress_all channel completed_value mode =
     uvm_channel_update_progress_with_max channel completed_value
       (num_gpfifo_entries channel) mode"

definition uvm_channel_update_progress_all ::
    "uvm_channel_t \<Rightarrow> NvU64 \<Rightarrow> fault + (NvU32 \<times> uvm_channel_t)" where
  "uvm_channel_update_progress_all channel completed_value =
     channel_update_progress_all channel completed_value UVM_CHANNEL_UPDATE_MODE_COMPLETED"

text \<open>
  Calling \<^verbatim>\<open>uvm_channel_update_progress_with_max\<close> in \<open>COMPLETED\<close> mode with the bound
  \<open>max_to_complete\<close> again and again, until a call leaves the channel as it found it
  (it reclaimed no entry).  The completed value is the same in every call: the GPU makes
  no progress in between.  \<open>None\<close> stands for a run that never ends.
\<close>

partial_function (option) update_progress_repeatedly ::
    "NvU64 \<Rightarrow> NvU32 \<Rightarrow> uvm_channel_t \<Rightarrow> (fault + uvm_channel_t) option" where
  "update_progress_repeatedly completed_value max_to_complete channel =
     (case uvm_channel_update_progress_with_max channel completed_value max_to_complete
             UVM_CHANNEL_UPDATE_MODE_COMPLETED of
        Inl f \<Rightarrow> Some (Inl f)
      | Inr (pending_gpfifos, channel') \<Rightarrow>
          if channel' = channel then Some (Inr channel')
          else update_progress_repeatedly completed_value max_to_complete channel')"

subsection \<open>Beginning a push\<close>

text \<open>
  \<^verbatim>\<open>channel_get_available_push_info_index\<close>: the head of the free list is detached and
  its index in \<open>push_infos\<close> returned.  \<^verbatim>\<open>list_first_entry_or_null\<close> gives \<^verbatim>\<open>NULL\<close>
  on an empty list, which the first assertion rejects; the second assertion reads the
  record.
\<close>

definition channel_get_available_push_info_index ::
    "uvm_channel_t \<Rightarrow> fault + (NvU32 \<times> uvm_channel_t)" where
  "channel_get_available_push_info_index channel =
     (case available_push_infos channel of
        [] \<Rightarrow> Inl (Assertion_failed ''push_info != NULL'')
      | info # rest \<Rightarrow>
          if length (push_infos channel) \<le> info then Inl Invalid_access
          else if \<not> (on_complete (push_infos channel ! info) = None
                       \<and> on_complete_data (push_infos channel ! info) = None)
          then Inl (Assertion_failed
                     ''push_info->on_complete == NULL && push_info->on_complete_data == NULL'')
          else Inr (of_nat info, channel\<lparr>available_push_infos := rest\<rparr>))"

text \<open>
  \<^verbatim>\<open>uvm_channel_begin_push\<close>; \<open>pushbuffer_begin_push\<close> is the status
  \<^verbatim>\<open>uvm_pushbuffer_begin_push\<close> returns.
\<close>

definition uvm_channel_begin_push ::
    "NV_STATUS \<Rightarrow> uvm_push_t \<Rightarrow> uvm_channel_t
      \<Rightarrow> fault + (NV_STATUS \<times> uvm_push_t \<times> uvm_channel_t)" where
  "uvm_channel_begin_push pushbuffer_begin_push push channel =
     (if pushbuffer_begin_push \<noteq> NV_OK then Inr (pushbuffer_begin_push, push, channel)
      else
        let push1 = push\<lparr>channel_tracking_value := 0\<rparr> in
        case channel_get_available_push_info_index channel of
          Inl f \<Rightarrow> Inl f
        | Inr (index, channel') \<Rightarrow> Inr (NV_OK, push1\<lparr>push_info_index := index\<rparr>, channel'))"

subsection \<open>Creating a channel\<close>

text \<open>
  What \<^verbatim>\<open>channel_create\<close> gets from outside this file: the statuses of the tracking
  semaphore allocation, of the RM channel allocation and of the procfs setup, whether
  each \<^verbatim>\<open>uvm_kvmalloc_zero\<close> succeeds, whether acquires are tracked, and the semaphore
  address and notifier word the new channel starts with.
\<close>

record channel_create_env =
  tracking_semaphore_alloc :: NV_STATUS
  tracking_semaphore_va :: NvU64
  rm_channel_allocate :: NV_STATUS
  rm_error_notifier :: "16 word"
  gpfifo_entries_alloc :: bool
  push_infos_alloc :: bool
  tracking_acquires :: bool
  push_acquire_infos_alloc :: bool
  create_procfs :: NV_STATUS

text \<open>
  \<^verbatim>\<open>channel_create\<close> for a manager whose \<^verbatim>\<open>conf.num_gpfifo_entries\<close> is \<open>conf_num\<close>.
  The channel lives in the pool's zero-filled array, so every field the function does
  not write is zero; the tracking semaphore starts with nothing queued.  The arrays are
  zero-filled, and the \<^verbatim>\<open>for\<close> loop appends the push-info records to the free list in
  index order.  On an error the channel is destroyed and the result is the status
  (\<open>Inl\<close>); the pool's \<open>num_channels\<close>, raised on entry, is lowered again.
\<close>

definition channel_create ::
    "NvU32 \<Rightarrow> bool \<Rightarrow> channel_create_env \<Rightarrow> NV_STATUS + uvm_channel_t" where
  "channel_create conf_num with_procfs env =
     (if tracking_semaphore_alloc env \<noteq> NV_OK then Inl (tracking_semaphore_alloc env)
      else if rm_channel_allocate env \<noteq> NV_OK then Inl (rm_channel_allocate env)
      else if \<not> gpfifo_entries_alloc env then Inl NV_ERR_NO_MEMORY
      else if \<not> push_infos_alloc env then Inl NV_ERR_NO_MEMORY
      else if tracking_acquires env \<and> \<not> push_acquire_infos_alloc env
      then Inl NV_ERR_NO_MEMORY
      else
        let channel =
              \<lparr>num_gpfifo_entries = conf_num,
               cpu_put = 0,
               gpu_get = 0,
               current_pushes_count = 0,
               gpfifo_entries = replicate (unat conf_num)
                   \<lparr>tracking_semaphore_value = 0, pushbuffer_offset = 0,
                    pushbuffer_size = 0, push_info = None\<rparr>,
               push_infos = replicate (unat conf_num)
                   \<lparr>on_complete = None, on_complete_data = None\<rparr>,
               available_push_infos = fold (\<lambda>i free. free @ [i]) [0..<unat conf_num] [],
               queued_value = 0,
               semaphore_gpu_va = tracking_semaphore_va env,
               errorNotifier_status = rm_error_notifier env,
               external_calls = []\<rparr>
        in
          if with_procfs \<and> create_procfs env \<noteq> NV_OK then Inl (create_procfs env)
          else Inr channel)"

subsection \<open>Channel errors\<close>

text \<open>
  What \<^verbatim>\<open>uvm_channel_get_status\<close> reads of the GPU: \<^verbatim>\<open>gpu->ecc.enabled\<close> and the byte
  \<^verbatim>\<open>*gpu->ecc.error_notifier\<close>.
\<close>

record uvm_gpu_t =
  ecc_enabled :: bool
  ecc_error_notifier :: "8 word"

definition uvm_channel_get_status :: "uvm_gpu_t \<Rightarrow> uvm_channel_t \<Rightarrow> NV_STATUS" where
  "uvm_channel_get_status gpu channel =
     (if errorNotifier_status channel = 0 then NV_OK
      else if ecc_enabled gpu \<and> ecc_error_notifier gpu \<noteq> 0 then NV_ERR_ECC_ERROR
      else NV_ERR_RC_ERROR)"

text \<open>
  \<^verbatim>\<open>uvm_channel_get_first_pending_entry\<close>; the entry returned is a pointer into
  \<open>gpfifo_entries\<close>, here its index, and \<open>None\<close> is \<^verbatim>\<open>NULL\<close>.
\<close>

definition uvm_channel_get_first_pending_entry ::
    "uvm_channel_t \<Rightarrow> NvU64 \<Rightarrow> fault + (NvU32 option \<times> uvm_channel_t)" where
  "uvm_channel_get_first_pending_entry channel completed_value =
     (case channel_update_progress_all channel completed_value
             UVM_CHANNEL_UPDATE_MODE_COMPLETED of
        Inl f \<Rightarrow> Inl f
      | Inr (pending_count, channel') \<Rightarrow>
          if pending_count = 0 then Inr (None, channel')
          else if gpu_get channel' \<noteq> cpu_put channel'
          then Inr (Some (gpu_get channel'), channel')
          else Inr (None, channel'))"

definition uvm_channel_get_fatal_entry ::
    "uvm_gpu_t \<Rightarrow> uvm_channel_t \<Rightarrow> NvU64 \<Rightarrow> fault + (NvU32 option \<times> uvm_channel_t)" where
  "uvm_channel_get_fatal_entry gpu channel completed_value =
     (if \<not> uvm_channel_get_status gpu channel \<noteq> NV_OK
      then Inl (Assertion_failed ''uvm_channel_get_status(channel) != NV_OK'')
      else uvm_channel_get_first_pending_entry channel completed_value)"

text \<open>
  Modelled from the spec: \<^verbatim>\<open>uvm_global_set_fatal_error\<close> is defined outside this file.
  The spec has the first observed error recorded into a process-wide fatal flag, and
  the flag is sticky: the flag takes the error when it holds none, and keeps the error
  it holds otherwise.
\<close>

definition uvm_global_set_fatal_error :: "NV_STATUS \<Rightarrow> NV_STATUS \<Rightarrow> NV_STATUS" where
  "uvm_global_set_fatal_error error fatal_error =
     (if fatal_error = NV_OK then error else fatal_error)"

text \<open>
  \<^verbatim>\<open>uvm_channel_check_errors\<close>.  The result is the status, the channel and the
  process-wide fatal flag after the call.  The two \<^verbatim>\<open>UVM_ERR_PRINT\<close> lines are logged as
  \<open>Err_print_channel_error\<close> and \<open>Err_print_fatal_push\<close>, the latter with the index of
  the push-info record whose description it prints.
\<close>

definition uvm_channel_check_errors ::
    "uvm_gpu_t \<Rightarrow> NvU64 \<Rightarrow> NV_STATUS \<Rightarrow> uvm_channel_t
      \<Rightarrow> fault + (NV_STATUS \<times> uvm_channel_t \<times> NV_STATUS)" where
  "uvm_channel_check_errors gpu completed_value fatal_error channel =
     (let status = uvm_channel_get_status gpu channel in
      if status = NV_OK then Inr (NV_OK, channel, fatal_error)
      else
        let channel1 = call Err_print_channel_error channel in
        case uvm_channel_get_fatal_entry gpu channel1 completed_value of
          Inl f \<Rightarrow> Inl f
        | Inr (None, channel2) \<Rightarrow>
            Inr (status, channel2, uvm_global_set_fatal_error status fatal_error)
        | Inr (Some fatal_entry, channel2) \<Rightarrow>
            if length (gpfifo_entries channel2) \<le> unat fatal_entry then Inl Invalid_access
            else
              (case push_info (gpfifo_entries channel2 ! unat fatal_entry) of
                 None \<Rightarrow> Inl Invalid_access
               | Some info \<Rightarrow>
                   if length (push_infos channel2) \<le> info then Inl Invalid_access
                   else Inr (status, call (Err_print_fatal_push info) channel2,
                             uvm_global_set_fatal_error status fatal_error)))"

subsection \<open>Module parameters and the manager's configuration\<close>

datatype UVM_BUFFER_LOCATION =
    UVM_BUFFER_LOCATION_DEFAULT
  | UVM_BUFFER_LOCATION_SYS
  | UVM_BUFFER_LOCATION_VID

text \<open>The four module parameters, file-scope variables in the source.\<close>

record module_parameters =
  uvm_channel_num_gpfifo_entries :: NvU32
  uvm_channel_gpfifo_loc :: string
  uvm_channel_gpput_loc :: string
  uvm_channel_pushbuffer_loc :: string

definition UVM_CHANNEL_NUM_GPFIFO_ENTRIES_DEFAULT :: NvU32 where
  "UVM_CHANNEL_NUM_GPFIFO_ENTRIES_DEFAULT = 1024"

definition UVM_CHANNEL_NUM_GPFIFO_ENTRIES_MIN :: NvU32 where
  "UVM_CHANNEL_NUM_GPFIFO_ENTRIES_MIN = 32"

definition UVM_CHANNEL_NUM_GPFIFO_ENTRIES_MAX :: NvU32 where
  "UVM_CHANNEL_NUM_GPFIFO_ENTRIES_MAX = 1024 * 1024"

definition UVM_CHANNEL_GPFIFO_LOC_DEFAULT :: string where
  "UVM_CHANNEL_GPFIFO_LOC_DEFAULT = ''auto''"

definition UVM_CHANNEL_GPPUT_LOC_DEFAULT :: string where
  "UVM_CHANNEL_GPPUT_LOC_DEFAULT = ''auto''"

definition UVM_CHANNEL_PUSHBUFFER_LOC_DEFAULT :: string where
  "UVM_CHANNEL_PUSHBUFFER_LOC_DEFAULT = ''auto''"

record uvm_channel_manager_conf =
  conf_num_gpfifo_entries :: NvU32
  conf_gpfifo_loc :: UVM_BUFFER_LOCATION
  conf_gpput_loc :: UVM_BUFFER_LOCATION
  conf_pushbuffer_loc :: UVM_BUFFER_LOCATION

text \<open>
  What \<^verbatim>\<open>init_channel_manager_conf\<close> reads of the GPU and the build:
  \<^verbatim>\<open>gpu->mem_info.size\<close>, \<^verbatim>\<open>gpu->parent->gpfifo_in_vidmem_supported\<close>, whether
  \<^verbatim>\<open>gpu->parent->sysmem_link >= UVM_GPU_LINK_NVLINK_2\<close>, and \<^verbatim>\<open>NVCPU_IS_AARCH64\<close>.
\<close>

record conf_platform =
  mem_info_size :: NvU64
  gpfifo_in_vidmem_supported :: bool
  sysmem_link_at_least_nvlink_2 :: bool
  NVCPU_IS_AARCH64 :: bool

text \<open>The \<^verbatim>\<open>pr_info\<close> lines of \<^verbatim>\<open>init_channel_manager_conf\<close>, with their arguments.\<close>

datatype pr_info =
    Invalid_num_gpfifo_entries NvU32 NvU32
  | Invalid_pushbuffer_loc string string
  | Pushbuffer_loc_not_supported_on_aarch64 string
  | Invalid_gpfifo_loc string string
  | Invalid_gpput_loc string string
  | Gpput_in_sysmem_caution

text \<open>
  Modelled from the spec: \<^verbatim>\<open>is_power_of_2\<close> is the kernel's helper and is not among the
  sources; the spec reads the test as "is a power of two".  It is computed the way the
  kernel computes it: the value is not zero and shares no bit with its predecessor.
\<close>

definition is_power_of_2 :: "NvU32 \<Rightarrow> bool" where
  "is_power_of_2 n \<longleftrightarrow> n \<noteq> 0 \<and> n AND (n - 1) = 0"

text \<open>
  Step 1 of \<^verbatim>\<open>init_channel_manager_conf\<close>: the value stored in
  \<^verbatim>\<open>manager->conf.num_gpfifo_entries\<close>, and the line logged when it differs from the
  parameter.
\<close>

definition init_num_gpfifo_entries :: "NvU32 \<Rightarrow> NvU32" where
  "init_num_gpfifo_entries param =
     (let n0 = param;
          n1 = (if param < UVM_CHANNEL_NUM_GPFIFO_ENTRIES_MIN
                then UVM_CHANNEL_NUM_GPFIFO_ENTRIES_MIN
                else if param > UVM_CHANNEL_NUM_GPFIFO_ENTRIES_MAX
                then UVM_CHANNEL_NUM_GPFIFO_ENTRIES_MAX
                else n0)
      in if \<not> is_power_of_2 n1 then UVM_CHANNEL_NUM_GPFIFO_ENTRIES_DEFAULT else n1)"

text \<open>
  \<^verbatim>\<open>is_string_valid_location\<close>.  As in the source, the three comparisons are made on
  the parameter \<^verbatim>\<open>uvm_channel_gpfifo_loc\<close>; the argument \<open>loc\<close> is not read.
\<close>

definition is_string_valid_location :: "module_parameters \<Rightarrow> string \<Rightarrow> bool" where
  "is_string_valid_location params loc \<longleftrightarrow>
     uvm_channel_gpfifo_loc params = ''sys''
     \<or> uvm_channel_gpfifo_loc params = ''vid''
     \<or> uvm_channel_gpfifo_loc params = ''auto''"

text \<open>
  \<^verbatim>\<open>string_to_buffer_location\<close>: the location a string stands for, and the assertion
  of its first line when it fails.  The comparisons after the assertion are made
  whether it held or not, and every string has a location.
\<close>

definition string_to_buffer_location ::
    "module_parameters \<Rightarrow> string \<Rightarrow> fault list \<times> UVM_BUFFER_LOCATION" where
  "string_to_buffer_location params loc =
     (if \<not> is_string_valid_location params loc
      then [Assertion_failed ''is_string_valid_location(loc)''] else [],
      if loc = ''sys'' then UVM_BUFFER_LOCATION_SYS
      else if loc = ''vid'' then UVM_BUFFER_LOCATION_VID
      else UVM_BUFFER_LOCATION_DEFAULT)"

text \<open>
  Step 3 of \<^verbatim>\<open>init_channel_manager_conf\<close>, from the two location strings left after
  validation: the defaults, then the overrides.  Each override calls
  \<^verbatim>\<open>string_to_buffer_location\<close> once in its condition and once more in its assignment;
  the failed assertions of all the calls are collected in order.
\<close>

definition init_gpfifo_gpput_loc ::
    "module_parameters \<Rightarrow> conf_platform \<Rightarrow> string \<Rightarrow> string \<Rightarrow> uvm_channel_manager_conf
      \<Rightarrow> pr_info list \<Rightarrow> uvm_channel_manager_conf \<times> pr_info list \<times> fault list" where
  "init_gpfifo_gpput_loc params platform gpfifo_loc_value gpput_loc_value conf log =
     (let conf1 = conf\<lparr>conf_gpfifo_loc := UVM_BUFFER_LOCATION_VID,
                       conf_gpput_loc := UVM_BUFFER_LOCATION_VID\<rparr>;
          conf2 = (if sysmem_link_at_least_nvlink_2 platform
                   then conf1\<lparr>conf_gpfifo_loc := UVM_BUFFER_LOCATION_SYS\<rparr> else conf1);
          (failed1, gpfifo_loc) = string_to_buffer_location params gpfifo_loc_value;
          (conf3, failed2) =
            (if gpfifo_loc \<noteq> UVM_BUFFER_LOCATION_DEFAULT
             then
               let (failed, gpfifo_loc') = string_to_buffer_location params gpfifo_loc_value
               in (conf2\<lparr>conf_gpfifo_loc := gpfifo_loc'\<rparr>, failed1 @ failed)
             else (conf2, failed1));
          (failed3, gpput_loc) = string_to_buffer_location params gpput_loc_value
      in
        if gpput_loc \<noteq> UVM_BUFFER_LOCATION_DEFAULT
        then
          let (failed4, gpput_loc') = string_to_buffer_location params gpput_loc_value;
              conf4 = conf3\<lparr>conf_gpput_loc := gpput_loc'\<rparr>
          in
            if conf_gpput_loc conf4 = UVM_BUFFER_LOCATION_SYS
            then (conf4, log @ [Gpput_in_sysmem_caution], failed2 @ failed3 @ failed4)
            else (conf4, log, failed2 @ failed3 @ failed4)
        else (conf3, log, failed2 @ failed3))"

text \<open>
  \<^verbatim>\<open>init_channel_manager_conf\<close>: the configuration it leaves in the zero-filled manager,
  the lines it logs, and the assertions of \<^verbatim>\<open>string_to_buffer_location\<close> that failed on
  the way.  It returns on every input.
\<close>

definition init_channel_manager_conf ::
    "module_parameters \<Rightarrow> conf_platform
      \<Rightarrow> uvm_channel_manager_conf \<times> pr_info list \<times> fault list" where
  "init_channel_manager_conf params platform =
     (let conf0 = \<lparr>conf_num_gpfifo_entries =
                     init_num_gpfifo_entries (uvm_channel_num_gpfifo_entries params),
                   conf_gpfifo_loc = UVM_BUFFER_LOCATION_DEFAULT,
                   conf_gpput_loc = UVM_BUFFER_LOCATION_DEFAULT,
                   conf_pushbuffer_loc = UVM_BUFFER_LOCATION_DEFAULT\<rparr>;
          log0 = (if conf_num_gpfifo_entries conf0 \<noteq> uvm_channel_num_gpfifo_entries params
                  then [Invalid_num_gpfifo_entries (uvm_channel_num_gpfifo_entries params)
                          (conf_num_gpfifo_entries conf0)]
                  else [])
      in
        if mem_info_size platform = 0
        then (conf0\<lparr>conf_pushbuffer_loc := UVM_BUFFER_LOCATION_SYS,
                    conf_gpfifo_loc := UVM_BUFFER_LOCATION_SYS,
                    conf_gpput_loc := UVM_BUFFER_LOCATION_SYS\<rparr>, log0, [])
        else
          let conf1 = conf0\<lparr>conf_pushbuffer_loc := UVM_BUFFER_LOCATION_SYS\<rparr>;
              pushbuffer_invalid =
                (\<not> is_string_valid_location params (uvm_channel_pushbuffer_loc params));
              pushbuffer_loc_value =
                (if pushbuffer_invalid then UVM_CHANNEL_PUSHBUFFER_LOC_DEFAULT
                 else uvm_channel_pushbuffer_loc params);
              log1 = (if pushbuffer_invalid
                      then log0 @ [Invalid_pushbuffer_loc (uvm_channel_pushbuffer_loc params)
                                     pushbuffer_loc_value]
                      else log0);
              (conf2, log2) =
                (if pushbuffer_loc_value = ''vid'' then
                   (if NVCPU_IS_AARCH64 platform
                    then (conf1\<lparr>conf_pushbuffer_loc := UVM_BUFFER_LOCATION_SYS\<rparr>,
                          log1 @ [Pushbuffer_loc_not_supported_on_aarch64 pushbuffer_loc_value])
                    else (conf1\<lparr>conf_pushbuffer_loc := UVM_BUFFER_LOCATION_VID\<rparr>, log1))
                 else (conf1, log1))
          in
            if \<not> gpfifo_in_vidmem_supported platform
            then (conf2\<lparr>conf_gpfifo_loc := UVM_BUFFER_LOCATION_DEFAULT,
                        conf_gpput_loc := UVM_BUFFER_LOCATION_DEFAULT\<rparr>, log2, [])
            else
              let gpfifo_invalid =
                    (\<not> is_string_valid_location params (uvm_channel_gpfifo_loc params));
                  gpfifo_loc_value =
                    (if gpfifo_invalid then UVM_CHANNEL_GPFIFO_LOC_DEFAULT
                     else uvm_channel_gpfifo_loc params);
                  log3 = (if gpfifo_invalid
                          then log2 @ [Invalid_gpfifo_loc (uvm_channel_gpfifo_loc params)
                                         gpfifo_loc_value]
                          else log2);
                  gpput_invalid =
                    (\<not> is_string_valid_location params (uvm_channel_gpput_loc params));
                  gpput_loc_value =
                    (if gpput_invalid then UVM_CHANNEL_GPPUT_LOC_DEFAULT
                     else uvm_channel_gpput_loc params);
                  log4 = (if gpput_invalid
                          then log3 @ [Invalid_gpput_loc (uvm_channel_gpput_loc params)
                                         gpput_loc_value]
                          else log3)
              in init_gpfifo_gpput_loc params platform gpfifo_loc_value gpput_loc_value
                   conf2 log4)"

subsection \<open>Choosing copy engines\<close>

definition UVM_COPY_ENGINE_COUNT_MAX :: NvU32 where
  "UVM_COPY_ENGINE_COUNT_MAX = 64"

definition UVM_CHANNEL_TYPE_COUNT :: nat where
  "UVM_CHANNEL_TYPE_COUNT = 5"

text \<open>The value of each enumerator of \<^verbatim>\<open>uvm_channel_type_t\<close>, used as an array index.\<close>

fun channel_type_index :: "uvm_channel_type_t \<Rightarrow> nat" where
  "channel_type_index UVM_CHANNEL_TYPE_CPU_TO_GPU = 0"
| "channel_type_index UVM_CHANNEL_TYPE_GPU_TO_CPU = 1"
| "channel_type_index UVM_CHANNEL_TYPE_GPU_INTERNAL = 2"
| "channel_type_index UVM_CHANNEL_TYPE_MEMOPS = 3"
| "channel_type_index UVM_CHANNEL_TYPE_GPU_TO_GPU = 4"

text \<open>
  Modelled from the spec: \<^verbatim>\<open>hweight32\<close> is the kernel's helper and is not among the
  sources; the spec reads it as the population count of the PCE mask.
\<close>

definition hweight32 :: "NvU32 \<Rightarrow> nat" where
  "hweight32 w = length (filter (bit w) [0..<32])"

text \<open>
  \<^verbatim>\<open>ce_usage_count\<close>: how many of the \<^verbatim>\<open>UVM_CHANNEL_TYPE_COUNT\<close> slots of \<open>preferred_ce\<close>
  hold \<open>ce\<close>.
\<close>

definition ce_usage_count :: "NvU32 \<Rightarrow> NvU32 list \<Rightarrow> fault + NvU32" where
  "ce_usage_count ce preferred_ce =
     (if \<not> ce < UVM_COPY_ENGINE_COUNT_MAX
      then Inl (Assertion_failed ''ce < UVM_COPY_ENGINE_COUNT_MAX'')
      else if length preferred_ce < UVM_CHANNEL_TYPE_COUNT then Inl Invalid_access
      else Inr (fold (\<lambda>i count. if ce = preferred_ce ! i then count + 1 else count)
                  [0..<UVM_CHANNEL_TYPE_COUNT] 0))"

text \<open>
  The \<^verbatim>\<open>switch\<close> of \<^verbatim>\<open>compare_ce_for_channel_type\<close>: \<open>Some r\<close> where a case returns \<open>r\<close>,
  \<open>None\<close> where it breaks out to the default ordering.  The flags are C integers 0 and
  1, the differences are taken in \<^verbatim>\<open>int\<close>.
\<close>

definition compare_ce_by_type ::
    "uvm_channel_type_t \<Rightarrow> UvmGpuCopyEngineCaps \<Rightarrow> UvmGpuCopyEngineCaps \<Rightarrow> int option" where
  "compare_ce_by_type type cap0 cap1 =
     (case type of
        UVM_CHANNEL_TYPE_CPU_TO_GPU \<Rightarrow>
          if sysmemRead cap0 \<noteq> sysmemRead cap1
          then Some (of_bool (sysmemRead cap1) - of_bool (sysmemRead cap0))
          else if nvlinkP2p cap0 \<noteq> nvlinkP2p cap1
          then Some (of_bool (nvlinkP2p cap0) - of_bool (nvlinkP2p cap1))
          else None
      | UVM_CHANNEL_TYPE_GPU_TO_CPU \<Rightarrow>
          if sysmemWrite cap0 \<noteq> sysmemWrite cap1
          then Some (of_bool (sysmemWrite cap1) - of_bool (sysmemWrite cap0))
          else if nvlinkP2p cap0 \<noteq> nvlinkP2p cap1
          then Some (of_bool (nvlinkP2p cap0) - of_bool (nvlinkP2p cap1))
          else None
      | UVM_CHANNEL_TYPE_GPU_TO_GPU \<Rightarrow>
          let pce_diff = int (hweight32 (cePceMask cap1)) - int (hweight32 (cePceMask cap0))
          in if pce_diff \<noteq> 0 then Some pce_diff else None
      | UVM_CHANNEL_TYPE_GPU_INTERNAL \<Rightarrow>
          let pce_diff = int (hweight32 (cePceMask cap1)) - int (hweight32 (cePceMask cap0))
          in if pce_diff \<noteq> 0 then Some pce_diff
             else if nvlinkP2p cap0 \<noteq> nvlinkP2p cap1
             then Some (of_bool (nvlinkP2p cap0) - of_bool (nvlinkP2p cap1))
             else None
      | UVM_CHANNEL_TYPE_MEMOPS \<Rightarrow> None)"

text \<open>
  \<^verbatim>\<open>compare_ce_for_channel_type\<close>: negative when the first engine is the better one.
  The usage counts and the indices are unsigned; their differences are returned as
  \<^verbatim>\<open>int\<close>, hence \<open>sint\<close>.
\<close>

definition compare_ce_for_channel_type ::
    "UvmGpuCopyEngineCaps list \<Rightarrow> uvm_channel_type_t \<Rightarrow> NvU32 \<Rightarrow> NvU32 \<Rightarrow> NvU32 list
      \<Rightarrow> fault + int" where
  "compare_ce_for_channel_type ce_caps type ce_index0 ce_index1 preferred_ce =
     (if length ce_caps \<le> unat ce_index0 \<or> length ce_caps \<le> unat ce_index1
      then Inl Invalid_access
      else
        let cap0 = ce_caps ! unat ce_index0;
            cap1 = ce_caps ! unat ce_index1
        in
          if \<not> ce_usable_for_channel_type type cap0
          then Inl (Assertion_failed ''ce_usable_for_channel_type(type, cap0)'')
          else if \<not> ce_usable_for_channel_type type cap1
          then Inl (Assertion_failed ''ce_usable_for_channel_type(type, cap1)'')
          else if \<not> ce_index0 < UVM_COPY_ENGINE_COUNT_MAX
          then Inl (Assertion_failed ''ce_index0 < UVM_COPY_ENGINE_COUNT_MAX'')
          else if \<not> ce_index1 < UVM_COPY_ENGINE_COUNT_MAX
          then Inl (Assertion_failed ''ce_index1 < UVM_COPY_ENGINE_COUNT_MAX'')
          else if \<not> ce_index0 \<noteq> ce_index1
          then Inl (Assertion_failed ''ce_index0 != ce_index1'')
          else
            (case compare_ce_by_type type cap0 cap1 of
               Some r \<Rightarrow> Inr r
             | None \<Rightarrow>
                 (case ce_usage_count ce_index0 preferred_ce of
                    Inl f \<Rightarrow> Inl f
                  | Inr ce0_usage \<Rightarrow>
                      (case ce_usage_count ce_index1 preferred_ce of
                         Inl f \<Rightarrow> Inl f
                       | Inr ce1_usage \<Rightarrow>
                           if ce0_usage \<noteq> ce1_usage then Inr (sint (ce0_usage - ce1_usage))
                           else if shared cap0 \<noteq> shared cap1
                           then Inr (of_bool (shared cap0) - of_bool (shared cap1))
                           else Inr (sint (ce_index0 - ce_index1))))))"

text \<open>
  The \<^verbatim>\<open>for\<close> loop of \<^verbatim>\<open>pick_ce_for_channel_type\<close> over the engine indices, with the
  manager's \<open>ce_mask\<close> (a bitmap of \<^verbatim>\<open>UVM_COPY_ENGINE_COUNT_MAX\<close> bits) and the local
  \<open>best_ce\<close>.
\<close>

function pick_ce_loop ::
    "UvmGpuCopyEngineCaps list \<Rightarrow> uvm_channel_type_t \<Rightarrow> NvU32 list \<Rightarrow> NvU32 \<Rightarrow> 64 word \<Rightarrow> NvU32
      \<Rightarrow> fault + (64 word \<times> NvU32)" where
  "pick_ce_loop ce_caps type preferred_ce i ce_mask best_ce =
     (if i < UVM_COPY_ENGINE_COUNT_MAX then
        (if length ce_caps \<le> unat i then Inl Invalid_access
         else if \<not> ce_usable_for_channel_type type (ce_caps ! unat i)
         then pick_ce_loop ce_caps type preferred_ce (i + 1) ce_mask best_ce
         else
           let ce_mask' = set_bit (unat i) ce_mask in
             if best_ce = UVM_COPY_ENGINE_COUNT_MAX
             then pick_ce_loop ce_caps type preferred_ce (i + 1) ce_mask' i
             else
               (case compare_ce_for_channel_type ce_caps type i best_ce preferred_ce of
                  Inl f \<Rightarrow> Inl f
                | Inr r \<Rightarrow>
                    pick_ce_loop ce_caps type preferred_ce (i + 1) ce_mask'
                      (if r < 0 then i else best_ce)))
      else Inr (ce_mask, best_ce))"
  by pat_completeness auto
termination
proof (relation "measure (\<lambda>(ce_caps, type, preferred_ce, i, ce_mask, best_ce). 64 - unat i)")
  show "wf (measure (\<lambda>(ce_caps, type, preferred_ce, i, ce_mask, best_ce). 64 - unat i))"
    by simp
qed (simp_all add: UVM_COPY_ENGINE_COUNT_MAX_def word_less_nat_alt unat_word_ariths)

declare pick_ce_loop.simps [simp del]

text \<open>
  \<^verbatim>\<open>pick_ce_for_channel_type\<close>: the status, and the manager's \<open>ce_mask\<close> and the
  \<open>preferred_ce\<close> array after the call.
\<close>

definition pick_ce_for_channel_type ::
    "UvmGpuCopyEngineCaps list \<Rightarrow> uvm_channel_type_t \<Rightarrow> 64 word \<Rightarrow> NvU32 list
      \<Rightarrow> fault + (NV_STATUS \<times> 64 word \<times> NvU32 list)" where
  "pick_ce_for_channel_type ce_caps type ce_mask preferred_ce =
     (case pick_ce_loop ce_caps type preferred_ce 0 ce_mask UVM_COPY_ENGINE_COUNT_MAX of
        Inl f \<Rightarrow> Inl f
      | Inr (ce_mask', best_ce) \<Rightarrow>
          if best_ce = UVM_COPY_ENGINE_COUNT_MAX
          then Inr (NV_ERR_NOT_SUPPORTED, ce_mask', preferred_ce)
          else if length preferred_ce \<le> channel_type_index type then Inl Invalid_access
          else Inr (NV_OK, ce_mask', preferred_ce[channel_type_index type := best_ce]))"

text \<open>
  The loop of \<^verbatim>\<open>channel_manager_pick_copy_engines\<close> over its \<^verbatim>\<open>types\<close> array, and the
  function itself; \<open>query_status\<close> and \<open>ces_caps\<close> are what
  \<^verbatim>\<open>nvUvmInterfaceQueryCopyEnginesCaps\<close> returns.
\<close>

fun pick_copy_engines_loop ::
    "UvmGpuCopyEngineCaps list \<Rightarrow> uvm_channel_type_t list \<Rightarrow> 64 word \<Rightarrow> NvU32 list
      \<Rightarrow> fault + (NV_STATUS \<times> 64 word \<times> NvU32 list)" where
  "pick_copy_engines_loop ces_caps [] ce_mask preferred_ce = Inr (NV_OK, ce_mask, preferred_ce)"
| "pick_copy_engines_loop ces_caps (type # types) ce_mask preferred_ce =
     (case pick_ce_for_channel_type ces_caps type ce_mask preferred_ce of
        Inl f \<Rightarrow> Inl f
      | Inr (status, ce_mask', preferred_ce') \<Rightarrow>
          if status \<noteq> NV_OK then Inr (status, ce_mask', preferred_ce')
          else pick_copy_engines_loop ces_caps types ce_mask' preferred_ce')"

definition channel_manager_pick_copy_engines ::
    "NV_STATUS \<Rightarrow> UvmGpuCopyEngineCaps list \<Rightarrow> 64 word \<Rightarrow> NvU32 list
      \<Rightarrow> fault + (NV_STATUS \<times> 64 word \<times> NvU32 list)" where
  "channel_manager_pick_copy_engines query_status ces_caps ce_mask preferred_ce =
     (let types = [UVM_CHANNEL_TYPE_CPU_TO_GPU,
                   UVM_CHANNEL_TYPE_GPU_TO_CPU,
                   UVM_CHANNEL_TYPE_GPU_INTERNAL,
                   UVM_CHANNEL_TYPE_GPU_TO_GPU,
                   UVM_CHANNEL_TYPE_MEMOPS]
      in if query_status \<noteq> NV_OK then Inr (query_status, ce_mask, preferred_ce)
         else pick_copy_engines_loop ces_caps types ce_mask preferred_ce)"

subsection \<open>Channel pools\<close>

text \<open>
  \<^verbatim>\<open>uvm_channel_pool_t\<close>: \<open>channels\<close> holds the channels created so far, in array order,
  and \<open>num_channels\<close> counts them.
\<close>

record uvm_channel_pool_t =
  ce_index :: NvU32
  is_proxy :: bool
  num_channels :: NvU32
  channels :: "uvm_channel_t list"

definition channel_pool_num_channels :: "uvm_channel_pool_t \<Rightarrow> NvU32" where
  "channel_pool_num_channels pool = (if is_proxy pool then 1 else 2)"

text \<open>
  What \<^verbatim>\<open>channel_pool_create\<close> gets from outside: whether the channel array can be
  allocated, the environment of each \<^verbatim>\<open>channel_create\<close> and the status of each
  \<^verbatim>\<open>init_channel\<close>, by position in the pool.
\<close>

record pool_create_env =
  channels_alloc :: bool
  channel_env :: "nat \<Rightarrow> channel_create_env"
  init_channel :: "nat \<Rightarrow> NV_STATUS"

text \<open>
  \<^verbatim>\<open>channel_destroy\<close> as the pool sees it: the last channel goes and \<open>num_channels\<close>
  drops by one.
\<close>

definition channel_destroy :: "uvm_channel_pool_t \<Rightarrow> fault + uvm_channel_pool_t" where
  "channel_destroy pool =
     (if \<not> num_channels pool > 0 then Inl (Assertion_failed ''pool->num_channels > 0'')
      else Inr (pool\<lparr>num_channels := num_channels pool - 1,
                     channels := butlast (channels pool)\<rparr>))"

function channel_pool_destroy_loop :: "uvm_channel_pool_t \<Rightarrow> fault + uvm_channel_pool_t" where
  "channel_pool_destroy_loop pool =
     (if num_channels pool > 0 then
        (case channel_destroy pool of
           Inl f \<Rightarrow> Inl f
         | Inr pool' \<Rightarrow> channel_pool_destroy_loop pool')
      else Inr pool)"
  by pat_completeness auto
termination
proof (relation "measure (\<lambda>pool. unat (num_channels pool))")
  show "wf (measure (\<lambda>pool. unat (num_channels pool)))" by simp
next
  fix pool pool' :: uvm_channel_pool_t
  assume pos: "0 < num_channels pool" and d: "channel_destroy pool = Inr pool'"
  from pos have "1 \<le> unat (num_channels pool)" by (simp add: word_less_nat_alt)
  then have "unat (num_channels pool - 1) < unat (num_channels pool)"
    by (simp add: unat_sub word_le_nat_alt)
  with d pos show "(pool', pool) \<in> measure (\<lambda>pool. unat (num_channels pool))"
    by (auto simp: channel_destroy_def split: if_splits)
qed

declare channel_pool_destroy_loop.simps [simp del]

text \<open>
  \<^verbatim>\<open>channel_pool_destroy\<close>, with the manager's \<open>num_channel_pools\<close> passed in and out.
\<close>

definition channel_pool_destroy ::
    "uvm_channel_pool_t \<Rightarrow> NvU32 \<Rightarrow> fault + (uvm_channel_pool_t \<times> NvU32)" where
  "channel_pool_destroy pool num_channel_pools =
     (if \<not> num_channel_pools > 0
      then Inl (Assertion_failed ''pool->manager->num_channel_pools > 0'')
      else
        (case channel_pool_destroy_loop pool of
           Inl f \<Rightarrow> Inl f
         | Inr pool' \<Rightarrow> Inr (pool', num_channel_pools - 1)))"

text \<open>
  The \<^verbatim>\<open>for\<close> loop of \<^verbatim>\<open>channel_pool_create\<close>: \<open>Inl\<close> carries the status that sends the
  function to its \<^verbatim>\<open>error\<close> label, with the pool as it is then.
\<close>

function channel_pool_create_loop ::
    "NvU32 \<Rightarrow> bool \<Rightarrow> pool_create_env \<Rightarrow> NvU32 \<Rightarrow> NvU32 \<Rightarrow> uvm_channel_pool_t
      \<Rightarrow> (NV_STATUS \<times> uvm_channel_pool_t) + uvm_channel_pool_t" where
  "channel_pool_create_loop conf_num with_procfs env num_channels_l i pool =
     (if i < num_channels_l then
        (case channel_create conf_num with_procfs (channel_env env (unat i)) of
           Inl status \<Rightarrow> Inl (status, pool)
         | Inr channel \<Rightarrow>
             let pool' = pool\<lparr>num_channels := num_channels pool + 1,
                              channels := channels pool @ [channel]\<rparr>
             in if init_channel env (unat i) \<noteq> NV_OK
                then Inl (init_channel env (unat i), pool')
                else channel_pool_create_loop conf_num with_procfs env num_channels_l
                       (i + 1) pool')
      else Inr pool)"
  by pat_completeness auto
termination
proof (relation "measure (\<lambda>(conf_num, with_procfs, env, num_channels_l, i, pool).
                             unat num_channels_l - unat i)")
  show "wf (measure (\<lambda>(conf_num, with_procfs, env, num_channels_l, i, pool).
                       unat num_channels_l - unat i))"
    by simp
next
  fix conf_num :: NvU32 and with_procfs :: bool and env :: pool_create_env
    and num_channels_l i :: NvU32 and pool pool' :: uvm_channel_pool_t and channel
  assume "i < num_channels_l"
  then have lt: "unat i < unat num_channels_l" by (simp add: word_less_nat_alt)
  have "unat num_channels_l < 2 ^ 32"
    using unsigned_less [of num_channels_l, where 'a = nat] by simp
  with lt have "unat (i + 1) = unat i + 1" by (simp add: unat_word_ariths)
  with lt show "((conf_num, with_procfs, env, num_channels_l, i + 1, pool'),
                 (conf_num, with_procfs, env, num_channels_l, i, pool))
               \<in> measure (\<lambda>(conf_num, with_procfs, env, num_channels_l, i, pool).
                             unat num_channels_l - unat i)"
    by simp
qed

declare channel_pool_create_loop.simps [simp del]

text \<open>
  \<^verbatim>\<open>channel_pool_create\<close> for a manager with ring size \<open>conf_num\<close> and
  \<open>num_channel_pools\<close> pools so far: the status, the pool and the manager's new
  \<open>num_channel_pools\<close>.
\<close>

definition channel_pool_create ::
    "NvU32 \<Rightarrow> NvU32 \<Rightarrow> NvU32 \<Rightarrow> bool \<Rightarrow> bool \<Rightarrow> pool_create_env
      \<Rightarrow> fault + (NV_STATUS \<times> uvm_channel_pool_t \<times> NvU32)" where
  "channel_pool_create conf_num num_channel_pools ce is_proxy_l with_procfs env =
     (let pool = \<lparr>ce_index = ce, is_proxy = is_proxy_l, num_channels = 0, channels = []\<rparr>;
          num_channels_l = channel_pool_num_channels pool
      in
        if \<not> channels_alloc env then Inr (NV_ERR_NO_MEMORY, pool, num_channel_pools)
        else
          let num_channel_pools1 = num_channel_pools + 1 in
            (case channel_pool_create_loop conf_num with_procfs env num_channels_l 0 pool of
               Inr pool' \<Rightarrow> Inr (NV_OK, pool', num_channel_pools1)
             | Inl (status, pool') \<Rightarrow>
                 (case channel_pool_destroy pool' num_channel_pools1 of
                    Inl f \<Rightarrow> Inl f
                  | Inr (pool'', num_channel_pools2) \<Rightarrow>
                      Inr (status, pool'', num_channel_pools2))))"

subsection \<open>Creating the manager's pools\<close>

text \<open>
  \<^verbatim>\<open>uvm_channel_manager_t\<close>: the configuration, the bitmap of usable copy engines, the
  pool array with the count of pools created in it, and the table
  \<^verbatim>\<open>pool_to_use.default_for_type\<close>, whose pool pointers are indices into the pool array
  (\<open>None\<close> is \<^verbatim>\<open>NULL\<close>).
\<close>

record uvm_channel_manager_t =
  manager_conf :: uvm_channel_manager_conf
  ce_mask :: "64 word"
  channel_pools :: "uvm_channel_pool_t list"
  num_channel_pools :: NvU32
  default_for_type :: "nat option list"

text \<open>
  What \<^verbatim>\<open>channel_manager_create_pools\<close> gets from outside: the result of the RM query
  for the copy-engine capabilities, whether the GPU uses a proxy pool, whether the pool
  array can be allocated, and the environment of each pool creation, by pool slot.
\<close>

record create_pools_env =
  query_copy_engines_caps :: NV_STATUS
  copy_engines_caps :: "UvmGpuCopyEngineCaps list"
  uses_proxy_channel_pool :: bool
  channel_pools_alloc :: bool
  pool_env :: "nat \<Rightarrow> pool_create_env"

text \<open>
  Modelled from the spec: \<^verbatim>\<open>bitmap_weight\<close> is the kernel's helper and is not among the
  sources; the spec reads it as the population count of the first \<open>n\<close> bits.
\<close>

definition bitmap_weight :: "64 word \<Rightarrow> nat \<Rightarrow> nat" where
  "bitmap_weight bitmap n = length (filter (bit bitmap) [0..<n])"

text \<open>\<^verbatim>\<open>channel_manager_ce_pool\<close>: the slot of the pool of copy engine \<open>ce\<close>.\<close>

definition channel_manager_ce_pool :: "uvm_channel_manager_t \<Rightarrow> NvU32 \<Rightarrow> fault + nat" where
  "channel_manager_ce_pool manager ce =
     (if \<not> bit (ce_mask manager) (unat ce)
      then Inl (Assertion_failed ''test_bit(ce, manager->ce_mask)'')
      else
        let pool = bitmap_weight (ce_mask manager) (unat ce) in
          if length (channel_pools manager) \<le> pool then Inl Invalid_access
          else if \<not> \<not> is_proxy (channel_pools manager ! pool)
          then Inl (Assertion_failed ''!pool->is_proxy'')
          else if \<not> ce_index (channel_pools manager ! pool) = ce
          then Inl (Assertion_failed ''pool->ce_index == ce'')
          else Inr pool)"

text \<open>
  The \<^verbatim>\<open>for_each_set_bit\<close> loop of \<^verbatim>\<open>channel_manager_create_pools\<close> over the set bits
  of \<open>ce_mask\<close>, in rising order: each pool is created in the slot \<open>num_channel_pools\<close>.
  \<open>Inl\<close> of the inner sum is the status the function returns at once.
\<close>

fun create_pools_loop ::
    "bool \<Rightarrow> create_pools_env \<Rightarrow> nat list \<Rightarrow> uvm_channel_manager_t
      \<Rightarrow> fault + (NV_STATUS \<times> uvm_channel_manager_t)" where
  "create_pools_loop with_procfs env [] manager = Inr (NV_OK, manager)"
| "create_pools_loop with_procfs env (ce # ces) manager =
     (let slot = unat (num_channel_pools manager) in
      if length (channel_pools manager) \<le> slot then Inl Invalid_access
      else
        (case channel_pool_create (conf_num_gpfifo_entries (manager_conf manager))
                (num_channel_pools manager) (of_nat ce) False with_procfs (pool_env env slot) of
           Inl f \<Rightarrow> Inl f
         | Inr (status, pool, num_channel_pools') \<Rightarrow>
             let manager' = manager\<lparr>channel_pools := (channel_pools manager)[slot := pool],
                                     num_channel_pools := num_channel_pools'\<rparr>
             in if status \<noteq> NV_OK then Inr (status, manager')
                else create_pools_loop with_procfs env ces manager'))"

text \<open>
  The loop assigning a pool to each channel type, over the indices of \<open>preferred_ce\<close>.
\<close>

fun assign_types_loop ::
    "NvU32 list \<Rightarrow> nat list \<Rightarrow> uvm_channel_manager_t \<Rightarrow> fault + uvm_channel_manager_t" where
  "assign_types_loop preferred_ce [] manager = Inr manager"
| "assign_types_loop preferred_ce (type # types) manager =
     (if length preferred_ce \<le> type \<or> length (default_for_type manager) \<le> type
      then Inl Invalid_access
      else
        let ce = preferred_ce ! type in
          if \<not> bit (ce_mask manager) (unat ce)
          then Inl (Assertion_failed ''test_bit(ce, manager->ce_mask)'')
          else
            (case channel_manager_ce_pool manager ce of
               Inl f \<Rightarrow> Inl f
             | Inr pool \<Rightarrow>
                 assign_types_loop preferred_ce types
                   (manager\<lparr>default_for_type := (default_for_type manager)[type := Some pool]\<rparr>)))"

text \<open>
  The last step of \<^verbatim>\<open>channel_manager_create_pools\<close>: in SR-IOV heavy, one more pool,
  a proxy pool on the copy engine preferred for MEMOPS, which becomes the pool of that
  type.
\<close>

definition create_proxy_pool ::
    "bool \<Rightarrow> create_pools_env \<Rightarrow> NvU32 list \<Rightarrow> uvm_channel_manager_t
      \<Rightarrow> fault + (NV_STATUS \<times> uvm_channel_manager_t)" where
  "create_proxy_pool with_procfs env preferred_ce manager =
     (let slot = unat (num_channel_pools manager);
          memops = channel_type_index UVM_CHANNEL_TYPE_MEMOPS
      in
        if length (channel_pools manager) \<le> slot \<or> length preferred_ce \<le> memops
           \<or> length (default_for_type manager) \<le> memops
        then Inl Invalid_access
        else
          (case channel_pool_create (conf_num_gpfifo_entries (manager_conf manager))
                  (num_channel_pools manager) (preferred_ce ! memops) True with_procfs
                  (pool_env env slot) of
             Inl f \<Rightarrow> Inl f
           | Inr (status, pool, num_channel_pools') \<Rightarrow>
               let manager' = manager\<lparr>channel_pools := (channel_pools manager)[slot := pool],
                                       num_channel_pools := num_channel_pools'\<rparr>
               in if status \<noteq> NV_OK then Inr (status, manager')
                  else Inr (NV_OK, manager'\<lparr>default_for_type :=
                              (default_for_type manager')[memops := Some slot]\<rparr>)))"

text \<open>
  \<^verbatim>\<open>channel_manager_create_pools\<close>.  The pool array is zero-filled when allocated.  The
  result is the status and the manager as the call leaves it.
\<close>

definition channel_manager_create_pools ::
    "uvm_channel_manager_t \<Rightarrow> bool \<Rightarrow> create_pools_env
      \<Rightarrow> fault + (NV_STATUS \<times> uvm_channel_manager_t)" where
  "channel_manager_create_pools manager with_procfs env =
     (case channel_manager_pick_copy_engines (query_copy_engines_caps env)
             (copy_engines_caps env) (ce_mask manager)
             (replicate UVM_CHANNEL_TYPE_COUNT UVM_COPY_ENGINE_COUNT_MAX) of
        Inl f \<Rightarrow> Inl f
      | Inr (status, ce_mask', preferred_ce) \<Rightarrow>
          if status \<noteq> NV_OK then Inr (status, manager\<lparr>ce_mask := ce_mask'\<rparr>)
          else if \<not> channel_pools_alloc env
          then Inr (NV_ERR_NO_MEMORY, manager\<lparr>ce_mask := ce_mask'\<rparr>)
          else
            (let num_channel_pools_l =
                   bitmap_weight ce_mask' (unat UVM_COPY_ENGINE_COUNT_MAX)
                   + (if uses_proxy_channel_pool env then 1 else 0);
                 manager2 = manager\<lparr>ce_mask := ce_mask',
                     channel_pools := replicate num_channel_pools_l
                       \<lparr>ce_index = 0, is_proxy = False, num_channels = 0, channels = []\<rparr>\<rparr>
             in
               case create_pools_loop with_procfs env
                      (filter (bit ce_mask') [0..<unat UVM_COPY_ENGINE_COUNT_MAX]) manager2 of
                 Inl f \<Rightarrow> Inl f
               | Inr (status, manager3) \<Rightarrow>
                   if status \<noteq> NV_OK then Inr (status, manager3)
                   else
                     (case assign_types_loop preferred_ce [0..<UVM_CHANNEL_TYPE_COUNT]
                             manager3 of
                        Inl f \<Rightarrow> Inl f
                      | Inr manager4 \<Rightarrow>
                          if uses_proxy_channel_pool env
                          then create_proxy_pool with_procfs env preferred_ce manager4
                          else Inr (NV_OK, manager4))))"

subsection \<open>Distances in the ring\<close>

text \<open>
  The number of slots from \<open>g\<close> up to \<open>p\<close>, going round a ring of \<open>n\<close> slots: with
  \<open>g = gpu_get\<close> and \<open>p = cpu_put\<close>, the number of entries in flight.
\<close>

definition ring_distance :: "NvU32 \<Rightarrow> NvU32 \<Rightarrow> NvU32 \<Rightarrow> nat" where
  "ring_distance n g p = (unat p + unat n - unat g) mod unat n"

subsection \<open>The progress loop by rounds\<close>

text \<open>
  The loop of \<^verbatim>\<open>uvm_channel_update_progress_with_max\<close> with its bound counted down as a
  natural number: \<open>reclaim\<close> runs at most \<open>n\<close> rounds from \<open>g\<close>.  The loop is shown equal
  to it below, and the lemmas about sequences of calls are proved on it.
\<close>

fun reclaim ::
    "NvU64 \<Rightarrow> uvm_channel_update_mode_t \<Rightarrow> nat \<Rightarrow> uvm_channel_t \<Rightarrow> NvU32
      \<Rightarrow> fault + (NvU32 \<times> uvm_channel_t)" where
  "reclaim completed_value mode 0 channel g = Inr (g, channel)"
| "reclaim completed_value mode (Suc n) channel g =
     (if g \<noteq> cpu_put channel then
        (if length (gpfifo_entries channel) \<le> unat g then Inl Invalid_access
         else
           let entry = gpfifo_entries channel ! unat g in
             if mode = UVM_CHANNEL_UPDATE_MODE_COMPLETED
                \<and> tracking_semaphore_value entry > completed_value
             then Inr (g, channel)
             else
               (case push_info entry of
                  None \<Rightarrow> Inl Invalid_access
                | Some info \<Rightarrow>
                    if num_gpfifo_entries channel = 0 then Inl Division_by_zero
                    else
                      reclaim completed_value mode n
                        ((call (Pushbuffer_mark_completed entry) channel)
                           \<lparr>available_push_infos := available_push_infos channel @ [info]\<rparr>)
                        ((g + 1) mod num_gpfifo_entries channel)))
      else Inr (g, channel))"

text \<open>
  The value \<^verbatim>\<open>uvm_channel_update_progress_with_max\<close> returns, as a function of the
  channel it leaves, and the whole call with the bound as a natural number.
\<close>

definition pending_gpfifos_of :: "uvm_channel_t \<Rightarrow> NvU32" where
  "pending_gpfifos_of channel =
     (if cpu_put channel \<ge> gpu_get channel then cpu_put channel - gpu_get channel
      else num_gpfifo_entries channel - gpu_get channel + cpu_put channel)"

definition reclaim_from :: "NvU64 \<Rightarrow> uvm_channel_update_mode_t \<Rightarrow> nat \<Rightarrow> uvm_channel_t \<Rightarrow> fault + uvm_channel_t" where
  "reclaim_from completed_value mode n channel =
     (case reclaim completed_value mode n channel (gpu_get channel) of
        Inl f \<Rightarrow> Inl f
      | Inr (g, channel') \<Rightarrow> Inr (channel'\<lparr>gpu_get := g\<rparr>))"

subsection \<open>Runs of one channel\<close>

text \<open>
  The life of one channel as its clients drive it, one critical section at a time.
  Beside the channel a run records how many claims granted by \<^verbatim>\<open>try_claim_channel\<close>
  have not yet been used by a \<^verbatim>\<open>uvm_channel_begin_push\<close>, and the pushes begun and not
  yet ended.  A run starts with \<^verbatim>\<open>channel_create\<close> on the ring size that
  \<^verbatim>\<open>init_channel_manager_conf\<close> stores.  A push is begun only on a claimed slot and
  ended only after it was begun, with the push-info index it was given; progress is
  updated at any time, with any completed value, bound and mode.  A step that faults ends
  the run.
\<close>

record channel_run =
  run_channel :: uvm_channel_t
  reserved :: nat
  begun :: "uvm_push_t list"

inductive channel_runs :: "channel_run \<Rightarrow> bool" where
  created:
    "channel_create (init_num_gpfifo_entries param) with_procfs env = Inr channel
     \<Longrightarrow> channel_runs \<lparr>run_channel = channel, reserved = 0, begun = []\<rparr>"
| claim:
    "channel_runs s
     \<Longrightarrow> try_claim_channel (run_channel s) = Inr (claimed, channel')
     \<Longrightarrow> channel_runs (s\<lparr>run_channel := channel',
                            reserved := reserved s + (if claimed then 1 else 0)\<rparr>)"
| begin_push:
    "channel_runs s
     \<Longrightarrow> 0 < reserved s
     \<Longrightarrow> uvm_channel_begin_push pushbuffer_begin_push push (run_channel s)
           = Inr (status, push', channel')
     \<Longrightarrow> channel_runs (s\<lparr>run_channel := channel',
                            reserved := reserved s - 1,
                            begun := (if status = NV_OK then push' # begun s else begun s)\<rparr>)"
| end_push:
    "channel_runs s
     \<Longrightarrow> p \<in> set (begun s)
     \<Longrightarrow> push_info_index push = push_info_index p
     \<Longrightarrow> uvm_channel_end_push max_push_size push (run_channel s) = Inr (push', channel')
     \<Longrightarrow> channel_runs (s\<lparr>run_channel := channel', begun := remove1 p (begun s)\<rparr>)"
| update_progress:
    "channel_runs s
     \<Longrightarrow> uvm_channel_update_progress_with_max (run_channel s) completed_value
           max_to_complete mode = Inr (pending_gpfifos, channel')
     \<Longrightarrow> channel_runs (s\<lparr>run_channel := channel'\<rparr>)"

text \<open>
  The invariant of a run: the ring size is a configured one, both indices lie in the
  ring, every push-info record is on the free list, with a push begun or with an entry
  in flight, every push begun and every unused claim is counted in
  \<open>current_pushes_count\<close>, and the count and the entries in flight leave one slot free.
\<close>

definition run_invariant :: "channel_run \<Rightarrow> bool" where
  "run_invariant s \<longleftrightarrow>
     (let channel = run_channel s;
          n = num_gpfifo_entries channel;
          in_flight = ring_distance n (gpu_get channel) (cpu_put channel)
      in 32 \<le> unat n \<and> unat n \<le> 2 ^ 20
         \<and> cpu_put channel < n \<and> gpu_get channel < n
         \<and> length (push_infos channel) = unat n
         \<and> length (available_push_infos channel) + length (begun s) + in_flight = unat n
         \<and> reserved s + length (begun s) \<le> unat (current_pushes_count channel)
         \<and> unat (current_pushes_count channel) + in_flight < unat n)"

subsection \<open>The first pending slot\<close>

text \<open>
  The slots of the ring from \<open>g\<close> onwards, \<open>d\<close> of them, in ring order; the slots in
  flight, from \<open>gpu_get\<close> up to \<open>cpu_put\<close>; and the first of them whose tracking value
  the completed value has not reached.
\<close>

fun ring_walk :: "NvU32 \<Rightarrow> NvU32 \<Rightarrow> nat \<Rightarrow> NvU32 list" where
  "ring_walk n g 0 = []"
| "ring_walk n g (Suc d) = g # ring_walk n ((g + 1) mod n) d"

definition slots_in_flight :: "uvm_channel_t \<Rightarrow> NvU32 list" where
  "slots_in_flight channel =
     ring_walk (num_gpfifo_entries channel) (gpu_get channel)
       (ring_distance (num_gpfifo_entries channel) (gpu_get channel) (cpu_put channel))"

definition first_pending_slot :: "uvm_channel_t \<Rightarrow> NvU64 \<Rightarrow> NvU32 option" where
  "first_pending_slot channel completed_value =
     find (\<lambda>slot. completed_value
                    < tracking_semaphore_value (gpfifo_entries channel ! unat slot))
       (slots_in_flight channel)"

subsection \<open>Example inputs\<close>

text \<open>
  An environment in which every allocation of \<^verbatim>\<open>channel_create\<close> succeeds, and a
  four-slot channel with three entries in flight, releasing the values 1, 2 and 3.
\<close>

definition ok_env :: channel_create_env where
  "ok_env = \<lparr>tracking_semaphore_alloc = NV_OK, tracking_semaphore_va = 0,
     rm_channel_allocate = NV_OK, rm_error_notifier = 0, gpfifo_entries_alloc = True,
     push_infos_alloc = True, tracking_acquires = False, push_acquire_infos_alloc = True,
     create_procfs = NV_OK\<rparr>"

definition example_entry :: "NvU64 \<Rightarrow> nat \<Rightarrow> uvm_gpfifo_entry_t" where
  "example_entry v info = \<lparr>tracking_semaphore_value = v, pushbuffer_offset = 0,
     pushbuffer_size = 0, push_info = Some info\<rparr>"

definition example_channel :: uvm_channel_t where
  "example_channel =
     \<lparr>num_gpfifo_entries = 4, cpu_put = 3, gpu_get = 0, current_pushes_count = 0,
      gpfifo_entries = [example_entry 1 0, example_entry 2 1, example_entry 3 2,
                        \<lparr>tracking_semaphore_value = 0, pushbuffer_offset = 0,
                         pushbuffer_size = 0, push_info = None\<rparr>],
      push_infos = replicate 4 \<lparr>on_complete = None, on_complete_data = None\<rparr>,
      available_push_infos = [3],
      queued_value = 3, semaphore_gpu_va = 0, errorNotifier_status = 0,
      external_calls = []\<rparr>"

definition example_push :: uvm_push_t where
  "example_push = \<lparr>channel_tracking_value = 0, push_info_index = 3, push_get_size = 64,
     pushbuffer_offset_for_push = 256, pushbuffer_gpu_va_for_push = 4096\<rparr>"

text \<open>An environment in which every step of \<^verbatim>\<open>channel_pool_create\<close> succeeds.\<close>

definition ok_pool_env :: pool_create_env where
  "ok_pool_env = \<lparr>channels_alloc = True, channel_env = (\<lambda>i. ok_env),
     init_channel = (\<lambda>i. NV_OK)\<rparr>"

text \<open>A GPU with local memory and GPFIFO-in-vidmem support, and a set of module parameters.\<close>

definition example_platform :: conf_platform where
  "example_platform = \<lparr>mem_info_size = 17179869184, gpfifo_in_vidmem_supported = True,
     sysmem_link_at_least_nvlink_2 = False, NVCPU_IS_AARCH64 = False\<rparr>"

definition example_params :: "NvU32 \<Rightarrow> string \<Rightarrow> string \<Rightarrow> string \<Rightarrow> module_parameters" where
  "example_params n gpfifo gpput pushbuffer =
     \<lparr>uvm_channel_num_gpfifo_entries = n, uvm_channel_gpfifo_loc = gpfifo,
      uvm_channel_gpput_loc = gpput, uvm_channel_pushbuffer_loc = pushbuffer\<rparr>"

text \<open>
  The capability table of three copy engines: 0 reaches sysmem; 1 reaches sysmem and
  peers, over NVLINK, with the PCE mask \<open>mask1\<close>; 2 reaches peers, with the PCE mask
  \<open>mask2\<close>.  All three are supported and none is a GRCE; flags not named are clear, and
  the other 61 entries are zero, as \<^verbatim>\<open>memset\<close> leaves them.
\<close>

definition no_caps :: UvmGpuCopyEngineCaps where
  "no_caps = \<lparr>supported = False, grce = False, shared = False, sysmemRead = False,
     sysmemWrite = False, sysmem = False, nvlinkP2p = False, p2p = False, cePceMask = 0\<rparr>"

definition three_ce_caps :: "NvU32 \<Rightarrow> NvU32 \<Rightarrow> UvmGpuCopyEngineCaps list" where
  "three_ce_caps mask1 mask2 =
     [no_caps\<lparr>supported := True, sysmem := True\<rparr>,
      no_caps\<lparr>supported := True, sysmem := True, p2p := True, nvlinkP2p := True,
              cePceMask := mask1\<rparr>,
      no_caps\<lparr>supported := True, p2p := True, cePceMask := mask2\<rparr>]
     @ replicate 61 no_caps"

definition three_ce_env :: "NvU32 \<Rightarrow> NvU32 \<Rightarrow> create_pools_env" where
  "three_ce_env mask1 mask2 =
     \<lparr>query_copy_engines_caps = NV_OK, copy_engines_caps = three_ce_caps mask1 mask2,
      uses_proxy_channel_pool = False, channel_pools_alloc = True,
      pool_env = (\<lambda>slot. ok_pool_env)\<rparr>"

definition new_manager :: "uvm_channel_manager_conf \<Rightarrow> uvm_channel_manager_t" where
  "new_manager c = \<lparr>manager_conf = c, ce_mask = 0, channel_pools = [], num_channel_pools = 0,
     default_for_type = replicate UVM_CHANNEL_TYPE_COUNT None\<rparr>"

text \<open>A GPU with ECC enabled whose ECC notifier is set.\<close>

definition example_gpu :: uvm_gpu_t where
  "example_gpu = \<lparr>ecc_enabled = True, ecc_error_notifier = 1\<rparr>"

section \<open>Theorems\<close>

subsection \<open>Usability of a copy engine\<close>

text \<open>
  C5. For every channel type and every capability record, the copy engine is usable for
  the type if and only if \<open>supported\<close> is set and \<open>grce\<close> is clear, and moreover
  \<open>sysmem\<close> is set when the type is CPU\_TO\_GPU or GPU\_TO\_CPU, \<open>p2p\<close> is set when the
  type is GPU\_TO\_GPU, with nothing further asked for GPU\_INTERNAL and MEMOPS.
\<close>

theorem ce_usable_iff:
  "ce_usable_for_channel_type type cap \<longleftrightarrow>
     supported cap \<and> \<not> grce cap
     \<and> (type \<in> {UVM_CHANNEL_TYPE_CPU_TO_GPU, UVM_CHANNEL_TYPE_GPU_TO_CPU} \<longrightarrow> sysmem cap)
     \<and> (type = UVM_CHANNEL_TYPE_GPU_TO_GPU \<longrightarrow> p2p cap)"
  by (cases type) (simp_all add: ce_usable_for_channel_type_def)

theorem ce_usable_iff_witness:
  "ce_usable_for_channel_type UVM_CHANNEL_TYPE_GPU_TO_GPU
     \<lparr>supported = True, grce = False, shared = False, sysmemRead = False,
      sysmemWrite = False, sysmem = False, nvlinkP2p = False, p2p = True, cePceMask = 0\<rparr>
   \<and> \<not> ce_usable_for_channel_type UVM_CHANNEL_TYPE_CPU_TO_GPU
     \<lparr>supported = True, grce = False, shared = False, sysmemRead = False,
      sysmemWrite = False, sysmem = False, nvlinkP2p = False, p2p = True, cePceMask = 0\<rparr>"
  using ce_usable_iff [of UVM_CHANNEL_TYPE_GPU_TO_GPU
     "\<lparr>supported = True, grce = False, shared = False, sysmemRead = False,
      sysmemWrite = False, sysmem = False, nvlinkP2p = False, p2p = True, cePceMask = 0\<rparr>"]
    ce_usable_iff [of UVM_CHANNEL_TYPE_CPU_TO_GPU
     "\<lparr>supported = True, grce = False, shared = False, sysmemRead = False,
      sysmemWrite = False, sysmem = False, nvlinkP2p = False, p2p = True, cePceMask = 0\<rparr>"]
  by simp

subsection \<open>Admission to the ring\<close>

lemma unat_ring_sum:
  fixes p c n :: NvU32
  assumes "unat n dvd 2 ^ 32"
  shows "unat ((p + c + 1) mod n) = (unat p + unat c + 1) mod unat n"
proof -
  have "unat ((p + c + 1) mod n) = ((unat p + unat c + 1) mod 2 ^ 32) mod unat n"
    by (simp add: unat_mod unat_word_ariths mod_simps)
  also have "\<dots> = (unat p + unat c + 1) mod unat n"
    using assms by (simp add: mod_mod_cancel)
  finally show ?thesis .
qed

lemma channel_is_available_nat:
  assumes "unat (num_gpfifo_entries ch) dvd 2 ^ 32"
  shows "channel_is_available ch =
     Inr ((unat (cpu_put ch) + unat (current_pushes_count ch) + 1) mod unat (num_gpfifo_entries ch)
            \<noteq> unat (gpu_get ch))"
proof -
  have nz: "num_gpfifo_entries ch \<noteq> 0"
    using assms by (auto simp: unat_eq_0)
  show ?thesis
    using nz unat_ring_sum [OF assms, of "cpu_put ch" "current_pushes_count ch"]
    by (auto simp: channel_is_available_def Let_def word_unat_eq_iff)
qed

lemma ring_offset_neq:
  fixes p d n :: nat
  assumes "p < n" "0 < d" "d < n"
  shows "(p + d) mod n \<noteq> p"
proof (cases "p + d < n")
  case True
  then show ?thesis using assms by simp
next
  case False
  then have "(p + d) mod n = p + d - n"
    using assms by (simp add: mod_if)
  then show ?thesis using assms False by linarith
qed

lemma try_claim_times_burst:
  assumes dv: "unat (num_gpfifo_entries ch) dvd 2 ^ 32"
    and empty: "cpu_put ch = gpu_get ch"
    and inside: "cpu_put ch < num_gpfifo_entries ch"
    and total: "unat (current_pushes_count ch) + n = unat (num_gpfifo_entries ch)"
    and pos: "0 < n"
  shows "try_claim_times n ch =
     Inr (replicate (n - 1) True @ [False],
          ch\<lparr>current_pushes_count := current_pushes_count ch + of_nat (n - 1)\<rparr>)"
  using assms
proof (induction n arbitrary: ch)
  case 0
  then show ?case by simp
next
  case (Suc m)
  let ?N = "unat (num_gpfifo_entries ch)"
  let ?c = "unat (current_pushes_count ch)"
  let ?p = "unat (cpu_put ch)"
  have pN: "?p < ?N" using Suc.prems(3) by (simp add: word_less_nat_alt)
  have avail: "channel_is_available ch = Inr ((?p + ?c + 1) mod ?N \<noteq> unat (gpu_get ch))"
    using Suc.prems(1) by (rule channel_is_available_nat)
  show ?case
  proof (cases m)
    case 0
    then have "?c + 1 = ?N" using Suc.prems(4) by simp
    then have "?p + ?c + 1 = ?p + ?N" by simp
    then have "(?p + ?c + 1) mod ?N = ?p" using pN by (simp only: mod_add_self2 mod_less)
    then show ?thesis
      using avail 0 Suc.prems(2) by (simp add: try_claim_channel_def)
  next
    case (Suc k)
    then have lt: "?c + 1 < ?N" using Suc.prems(4) by simp
    then have "(?p + (?c + 1)) mod ?N \<noteq> ?p" using pN by (intro ring_offset_neq) simp_all
    then have granted: "try_claim_channel ch =
        Inr (True, ch\<lparr>current_pushes_count := current_pushes_count ch + 1\<rparr>)"
      using avail Suc.prems(2) by (simp add: try_claim_channel_def add.assoc)
    let ?ch' = "ch\<lparr>current_pushes_count := current_pushes_count ch + 1\<rparr>"
    have un: "unat (current_pushes_count ch + 1) = ?c + 1"
      proof -
      have "?N < 2 ^ 32" using unsigned_less [of "num_gpfifo_entries ch", where 'a=nat] by simp
      then show ?thesis using lt by (simp add: unat_word_ariths)
    qed
    have "try_claim_times m ?ch' =
        Inr (replicate (m - 1) True @ [False],
             ?ch'\<lparr>current_pushes_count := current_pushes_count ?ch' + of_nat (m - 1)\<rparr>)"
      using Suc.prems Suc un by (intro Suc.IH) simp_all
    then show ?thesis
      using granted Suc by (simp add: add.assoc)
  qed
qed

text \<open>
  C1. On a channel whose ring size divides \<open>2\<^sup>3\<^sup>2\<close> (every power of two the
  configuration can produce), \<^verbatim>\<open>try_claim_channel\<close> grants the claim if and only if
  \<open>(cpu_put + current_pushes_count + 1) mod N\<close> differs from \<open>gpu_get\<close>, in the 32-bit
  arithmetic of the code and in unbounded arithmetic alike; a granted claim adds exactly
  one to \<open>current_pushes_count\<close> and a refused one changes nothing.  Consequently, on an
  empty ring of \<open>N\<close> slots with nothing reserved and no completion observed, \<open>N\<close> claims
  one after the other are granted \<open>N - 1\<close> times and then refused, leaving \<open>N - 1\<close>
  reservations (1023 for \<open>N = 1024\<close>).
\<close>

theorem try_claim_channel_capacity:
  assumes "unat (num_gpfifo_entries channel) dvd 2 ^ 32"
  shows "(\<exists>claimed.
            try_claim_channel channel =
              Inr (claimed,
                   if claimed
                   then channel\<lparr>current_pushes_count := current_pushes_count channel + 1\<rparr>
                   else channel)
          \<and> claimed = ((cpu_put channel + current_pushes_count channel + 1)
                          mod num_gpfifo_entries channel \<noteq> gpu_get channel)
          \<and> claimed = ((unat (cpu_put channel) + unat (current_pushes_count channel) + 1)
                          mod unat (num_gpfifo_entries channel) \<noteq> unat (gpu_get channel)))
       \<and> (cpu_put channel = gpu_get channel \<and> cpu_put channel < num_gpfifo_entries channel
            \<and> current_pushes_count channel = 0 \<longrightarrow>
          try_claim_times (unat (num_gpfifo_entries channel)) channel =
            Inr (replicate (unat (num_gpfifo_entries channel) - 1) True @ [False],
                 channel\<lparr>current_pushes_count := num_gpfifo_entries channel - 1\<rparr>))"
proof (intro conjI impI)
  have nz: "num_gpfifo_entries channel \<noteq> 0"
    using assms by (auto simp: unat_eq_0)
  let ?claimed = "(cpu_put channel + current_pushes_count channel + 1)
                    mod num_gpfifo_entries channel \<noteq> gpu_get channel"
  have "try_claim_channel channel =
          Inr (?claimed,
               if ?claimed
               then channel\<lparr>current_pushes_count := current_pushes_count channel + 1\<rparr>
               else channel)"
    using nz by (simp add: try_claim_channel_def channel_is_available_def)
  moreover have "?claimed = ((unat (cpu_put channel) + unat (current_pushes_count channel) + 1)
                          mod unat (num_gpfifo_entries channel) \<noteq> unat (gpu_get channel))"
    using unat_ring_sum [OF assms, of "cpu_put channel" "current_pushes_count channel"]
    by (simp add: word_unat_eq_iff)
  ultimately show "\<exists>claimed.
            try_claim_channel channel =
              Inr (claimed,
                   if claimed
                   then channel\<lparr>current_pushes_count := current_pushes_count channel + 1\<rparr>
                   else channel)
          \<and> claimed = ((cpu_put channel + current_pushes_count channel + 1)
                          mod num_gpfifo_entries channel \<noteq> gpu_get channel)
          \<and> claimed = ((unat (cpu_put channel) + unat (current_pushes_count channel) + 1)
                          mod unat (num_gpfifo_entries channel) \<noteq> unat (gpu_get channel))"
    by blast
next
  assume fresh: "cpu_put channel = gpu_get channel \<and> cpu_put channel < num_gpfifo_entries channel
            \<and> current_pushes_count channel = 0"
  then have pos: "0 < unat (num_gpfifo_entries channel)"
    by (auto simp: word_less_nat_alt)
  have "of_nat (unat (num_gpfifo_entries channel) - 1) = num_gpfifo_entries channel - 1"
    using pos by (simp add: of_nat_diff)
  moreover from fresh have "cpu_put channel = gpu_get channel"
    "cpu_put channel < num_gpfifo_entries channel" "current_pushes_count channel = 0"
    by blast+
  moreover note try_claim_times_burst [OF assms, of "unat (num_gpfifo_entries channel)"] pos
  ultimately show "try_claim_times (unat (num_gpfifo_entries channel)) channel =
            Inr (replicate (unat (num_gpfifo_entries channel) - 1) True @ [False],
                 channel\<lparr>current_pushes_count := num_gpfifo_entries channel - 1\<rparr>)"
    by simp
qed

theorem try_claim_channel_capacity_witness:
  "\<exists>channel. channel_create 1024 False ok_env = Inr channel
     \<and> try_claim_times 1024 channel =
         Inr (replicate 1023 True @ [False], channel\<lparr>current_pushes_count := 1023\<rparr>)"
proof -
  obtain channel where c: "channel_create 1024 False ok_env = Inr channel"
    by (simp add: channel_create_def ok_env_def)
  then have f: "num_gpfifo_entries channel = 1024" "cpu_put channel = 0" "gpu_get channel = 0"
    "current_pushes_count channel = 0"
    by (auto simp: channel_create_def ok_env_def Let_def)
  have d: "unat (num_gpfifo_entries channel) dvd 2 ^ 32"
  proof -
    have "(2::nat) ^ 10 dvd 2 ^ 32" by (rule le_imp_power_dvd) simp
    then show ?thesis by (simp add: f)
  qed
  from try_claim_channel_capacity [OF d] f c show ?thesis by simp
qed

subsection \<open>Reclaiming in bounded steps\<close>

lemma update_progress_loop_reclaim:
  "completed_count \<le> max_to_complete \<Longrightarrow>
   update_progress_loop channel completed_value max_to_complete mode gpu_get_l completed_count =
   reclaim completed_value mode (unat max_to_complete - unat completed_count) channel gpu_get_l"
proof (induction channel completed_value max_to_complete mode gpu_get_l completed_count
        rule: update_progress_loop.induct)
  case (1 channel completed_value max_to_complete mode gpu_get_l completed_count)
  show ?case
  proof (cases "completed_count < max_to_complete")
    case False
    with "1.prems" have "unat max_to_complete - unat completed_count = 0"
      by (simp add: word_le_nat_alt word_less_nat_alt)
    with False show ?thesis
      by (subst update_progress_loop.simps) simp
  next
    case True
    then have lt: "unat completed_count < unat max_to_complete"
      by (simp add: word_less_nat_alt)
    have "unat max_to_complete < 2 ^ 32"
      using unsigned_less [of max_to_complete, where 'a = nat] by simp
    with lt have suc: "unat (completed_count + 1) = unat completed_count + 1"
      by (simp add: unat_word_ariths)
    with lt have le: "completed_count + 1 \<le> max_to_complete"
      by (simp add: word_le_nat_alt)
    from lt suc have fuel: "unat max_to_complete - unat completed_count =
        Suc (unat max_to_complete - unat (completed_count + 1))"
      by simp
    show ?thesis
      apply (subst update_progress_loop.simps)
      apply (subst fuel)
      using True le "1.IH"
      apply (auto simp: Let_def split: option.splits)
      done
  qed
qed

lemma reclaim_stuck:
  assumes "g = cpu_put channel \<or>
     (unat g < length (gpfifo_entries channel) \<and> mode = UVM_CHANNEL_UPDATE_MODE_COMPLETED
      \<and> tracking_semaphore_value (gpfifo_entries channel ! unat g) > completed_value)"
  shows "reclaim completed_value mode n channel g = Inr (g, channel)"
  using assms by (cases n) (auto simp: Let_def)

lemma reclaim_add:
  "reclaim completed_value mode (a + b) channel g =
     (case reclaim completed_value mode a channel g of
        Inl f \<Rightarrow> Inl f
      | Inr (g', channel') \<Rightarrow> reclaim completed_value mode b channel' g')"
proof (induction a arbitrary: channel g)
  case 0
  show ?case by simp
next
  case (Suc a)
  show ?case
    using Suc.IH
    by (auto simp: Let_def reclaim_stuck split: option.splits)
qed

lemma reclaim_frame:
  assumes "reclaim completed_value mode n channel g = Inr (g', channel')"
  shows "cpu_put channel' = cpu_put channel
       \<and> num_gpfifo_entries channel' = num_gpfifo_entries channel
       \<and> gpfifo_entries channel' = gpfifo_entries channel
       \<and> gpu_get channel' = gpu_get channel
       \<and> length (available_push_infos channel) \<le> length (available_push_infos channel')"
  using assms
proof (induction n arbitrary: channel g)
  case 0
  then show ?case by simp
next
  case (Suc n)
  from Suc.prems show ?case
    by (auto simp: Let_def call_def split: if_splits option.splits dest!: Suc.IH)
qed

lemma reclaim_unchanged:
  assumes "reclaim completed_value mode n channel g = Inr (g', channel)" and "0 < n"
  shows "g' = g \<and> (\<forall>m. reclaim completed_value mode m channel g = Inr (g, channel))"
proof (cases n)
  case 0
  with assms show ?thesis by simp
next
  case (Suc k)
  show ?thesis
  proof (cases "g = cpu_put channel \<or>
     (unat g < length (gpfifo_entries channel) \<and> mode = UVM_CHANNEL_UPDATE_MODE_COMPLETED
      \<and> tracking_semaphore_value (gpfifo_entries channel ! unat g) > completed_value)")
    case True
    then have "\<forall>m. reclaim completed_value mode m channel g = Inr (g, channel)"
      by (simp add: reclaim_stuck)
    with assms show ?thesis by simp
  next
    case False
    with assms Suc obtain info where
      "reclaim completed_value mode k
          ((call (Pushbuffer_mark_completed (gpfifo_entries channel ! unat g)) channel)
             \<lparr>available_push_infos := available_push_infos channel @ [info]\<rparr>)
          ((g + 1) mod num_gpfifo_entries channel) = Inr (g', channel)"
      by (auto simp: Let_def split: if_splits option.splits)
    from reclaim_frame [OF this] have False by simp
    then show ?thesis ..
  qed
qed

lemma ring_distance_step:
  fixes n g p :: NvU32
  assumes "g < n" "p < n" "g \<noteq> p"
  shows "(g + 1) mod n < n \<and> Suc (ring_distance n ((g + 1) mod n) p) = ring_distance n g p"
proof -
  let ?n = "unat n" and ?g = "unat g" and ?p = "unat p"
  have gn: "?g < ?n" and pn: "?p < ?n" and gp: "?g \<noteq> ?p"
    using assms by (simp_all add: word_less_nat_alt word_unat_eq_iff)
  have n32: "?n < 2 ^ 32"
    using unsigned_less [of n, where 'a = nat] by simp
  have g1: "unat (g + 1) = ?g + 1"
    using gn n32 by (simp add: unat_word_ariths)
  have g': "unat ((g + 1) mod n) = (?g + 1) mod ?n"
    by (simp add: unat_mod g1)
  have lt: "(g + 1) mod n < n"
    using gn by (simp add: word_less_nat_alt g')
  have dist: "Suc ((?p + ?n - (?g + 1) mod ?n) mod ?n) = (?p + ?n - ?g) mod ?n"
  proof (cases "?g + 1 = ?n")
    case True
    then have "(?g + 1) mod ?n = 0" by simp
    moreover have "(?p + ?n) mod ?n = ?p" using pn by simp
    moreover have "?p + ?n - ?g = ?p + 1" using True by simp
    moreover have "(?p + 1) mod ?n = ?p + 1" using pn gp True by simp
    ultimately show ?thesis by simp
  next
    case False
    then have m: "(?g + 1) mod ?n = ?g + 1" using gn by simp
    show ?thesis
    proof (cases "?g < ?p")
      case True
      then have e1: "?p + ?n - (?g + 1) = (?p - (?g + 1)) + ?n"
        and e2: "?p + ?n - ?g = (?p - ?g) + ?n"
        by simp_all
      have "(?p + ?n - (?g + 1)) mod ?n = ?p - (?g + 1)"
        unfolding e1 using pn by simp
      moreover have "(?p + ?n - ?g) mod ?n = ?p - ?g"
        unfolding e2 using pn by simp
      ultimately show ?thesis using True m by simp
    next
      case False
      then have "?p < ?g" using gp by simp
      then have "?p + ?n - (?g + 1) < ?n" "?p + ?n - ?g < ?n" using gn by simp_all
      then show ?thesis using \<open>?p < ?g\<close> gn m by simp
    qed
  qed
  show ?thesis using lt dist by (simp add: ring_distance_def g')
qed

lemma ring_distance_self:
  fixes n g :: NvU32
  shows "ring_distance n g g = 0"
proof -
  have "unat g + unat n - unat g = unat n" by simp
  then show ?thesis by (simp add: ring_distance_def)
qed

lemma ring_distance_0:
  fixes n g p :: NvU32
  assumes "g < n" "p < n" "ring_distance n g p = 0"
  shows "g = p"
proof (rule ccontr)
  assume "g \<noteq> p"
  from ring_distance_step [OF assms(1,2) this] assms(3) show False by simp
qed

lemma reclaim_saturates:
  assumes "g < num_gpfifo_entries channel" "cpu_put channel < num_gpfifo_entries channel"
    and "ring_distance (num_gpfifo_entries channel) g (cpu_put channel) \<le> n"
  shows "reclaim completed_value mode (n + j) channel g = reclaim completed_value mode n channel g"
  using assms
proof (induction n arbitrary: channel g)
  case 0
  then have "g = cpu_put channel" by (auto intro: ring_distance_0)
  then show ?case by (simp add: reclaim_stuck)
next
  case (Suc n)
  show ?case
  proof (cases "g = cpu_put channel")
    case True
    then show ?thesis by (simp add: reclaim_stuck)
  next
    case False
    from ring_distance_step [OF Suc.prems(1,2) False] Suc.prems(3)
    have lt: "(g + 1) mod num_gpfifo_entries channel < num_gpfifo_entries channel"
      and d: "ring_distance (num_gpfifo_entries channel)
                ((g + 1) mod num_gpfifo_entries channel) (cpu_put channel) \<le> n"
      by simp_all
    have "reclaim completed_value mode (n + j)
            ((call (Pushbuffer_mark_completed e) channel)\<lparr>available_push_infos := fl\<rparr>)
            ((g + 1) mod num_gpfifo_entries channel)
        = reclaim completed_value mode n
            ((call (Pushbuffer_mark_completed e) channel)\<lparr>available_push_infos := fl\<rparr>)
            ((g + 1) mod num_gpfifo_entries channel)" for e fl
      using lt d Suc.prems(2) by (intro Suc.IH) (simp_all add: call_def)
    then show ?thesis
      by (auto simp: Let_def split: option.splits)
  qed
qed

lemma reclaim_gpu_get:
  "reclaim completed_value mode n (channel\<lparr>gpu_get := x\<rparr>) g =
     (case reclaim completed_value mode n channel g of
        Inl f \<Rightarrow> Inl f
      | Inr (g', channel') \<Rightarrow> Inr (g', channel'\<lparr>gpu_get := x\<rparr>))"
proof (induction n arbitrary: channel g)
  case 0
  show ?case by simp
next
  case (Suc n)
  have swap: "(call c (channel\<lparr>gpu_get := x\<rparr>))\<lparr>available_push_infos := fl\<rparr> =
      ((call c channel)\<lparr>available_push_infos := fl\<rparr>)\<lparr>gpu_get := x\<rparr>" for c fl
    by (simp add: call_def)
  have "reclaim completed_value mode n
          ((call c (channel\<lparr>gpu_get := x\<rparr>))\<lparr>available_push_infos := fl\<rparr>) g1 =
        (case reclaim completed_value mode n ((call c channel)\<lparr>available_push_infos := fl\<rparr>) g1 of
           Inl f \<Rightarrow> Inl f
         | Inr (g', channel') \<Rightarrow> Inr (g', channel'\<lparr>gpu_get := x\<rparr>))" for c fl g1
    unfolding swap by (rule Suc.IH)
  then show ?case
    by (auto simp: Let_def split: option.splits)
qed

lemma with_max_reclaim_from:
  "uvm_channel_update_progress_with_max channel completed_value k mode =
     (case reclaim_from completed_value mode (unat k) channel of
        Inl f \<Rightarrow> Inl f
      | Inr channel' \<Rightarrow> Inr (pending_gpfifos_of channel', channel'))"
proof (cases "reclaim completed_value mode (unat k) channel (gpu_get channel)")
  case (Inl f)
  then show ?thesis
    by (simp add: uvm_channel_update_progress_with_max_def reclaim_from_def
        update_progress_loop_reclaim)
next
  case (Inr r)
  then obtain g channel' where r: "r = (g, channel')" by (cases r)
  from reclaim_frame [OF Inr [unfolded r]] Inr r show ?thesis
    by (simp add: uvm_channel_update_progress_with_max_def reclaim_from_def
        update_progress_loop_reclaim pending_gpfifos_of_def Let_def)
qed

lemma reclaim_from_add:
  "reclaim_from completed_value mode (a + b) channel =
     (case reclaim_from completed_value mode a channel of
        Inl f \<Rightarrow> Inl f
      | Inr channel' \<Rightarrow> reclaim_from completed_value mode b channel')"
  by (auto simp: reclaim_from_def reclaim_add reclaim_gpu_get split: sum.splits)

lemma reclaim_from_saturates:
  assumes "gpu_get channel < num_gpfifo_entries channel"
    and "cpu_put channel < num_gpfifo_entries channel"
    and "unat (num_gpfifo_entries channel) \<le> n"
  shows "reclaim_from completed_value mode (n + j) channel = reclaim_from completed_value mode n channel"
proof -
  have "ring_distance (num_gpfifo_entries channel) (gpu_get channel) (cpu_put channel) \<le> n"
    using assms by (simp add: ring_distance_def word_less_nat_alt less_imp_le [OF mod_less_divisor] le_trans [OF less_imp_le [OF mod_less_divisor]])
  from reclaim_saturates [OF assms(1,2) this] show ?thesis
    by (simp add: reclaim_from_def)
qed

lemma reclaim_progress:
  assumes "reclaim completed_value mode n channel g = Inr (g', channel')"
    and "g < num_gpfifo_entries channel" "cpu_put channel < num_gpfifo_entries channel"
  shows "g' < num_gpfifo_entries channel
       \<and> ring_distance (num_gpfifo_entries channel) g' (cpu_put channel)
           \<le> ring_distance (num_gpfifo_entries channel) g (cpu_put channel)
       \<and> (channel' \<noteq> channel \<longrightarrow>
            ring_distance (num_gpfifo_entries channel) g' (cpu_put channel)
              < ring_distance (num_gpfifo_entries channel) g (cpu_put channel))"
  using assms
proof (induction n arbitrary: channel g)
  case 0
  then show ?case by simp
next
  case (Suc n)
  show ?case
  proof (cases "g' = g \<and> channel' = channel")
    case True
    with Suc.prems show ?thesis by simp
  next
    case False
    with Suc.prems(1) obtain info where ne: "g \<noteq> cpu_put channel"
      and rec: "reclaim completed_value mode n
          ((call (Pushbuffer_mark_completed (gpfifo_entries channel ! unat g)) channel)
             \<lparr>available_push_infos := available_push_infos channel @ [info]\<rparr>)
          ((g + 1) mod num_gpfifo_entries channel) = Inr (g', channel')"
      by (auto simp: Let_def split: if_splits option.splits)
    let ?c1 = "(call (Pushbuffer_mark_completed (gpfifo_entries channel ! unat g)) channel)
             \<lparr>available_push_infos := available_push_infos channel @ [info]\<rparr>"
    have frame: "num_gpfifo_entries ?c1 = num_gpfifo_entries channel"
      "cpu_put ?c1 = cpu_put channel"
      by (simp_all add: call_def)
    from ring_distance_step [OF Suc.prems(2,3) ne]
    have lt: "(g + 1) mod num_gpfifo_entries channel < num_gpfifo_entries channel"
      and d: "Suc (ring_distance (num_gpfifo_entries channel)
                ((g + 1) mod num_gpfifo_entries channel) (cpu_put channel))
              = ring_distance (num_gpfifo_entries channel) g (cpu_put channel)"
      by simp_all
    from Suc.IH [OF rec] lt Suc.prems(3) frame
    have "g' < num_gpfifo_entries channel
       \<and> ring_distance (num_gpfifo_entries channel) g' (cpu_put channel)
           \<le> ring_distance (num_gpfifo_entries channel)
                ((g + 1) mod num_gpfifo_entries channel) (cpu_put channel)"
      by simp
    with d show ?thesis by simp
  qed
qed

lemma reclaim_from_progress:
  assumes "reclaim_from completed_value mode n channel = Inr channel'"
    and "gpu_get channel < num_gpfifo_entries channel"
    and "cpu_put channel < num_gpfifo_entries channel"
  shows "num_gpfifo_entries channel' = num_gpfifo_entries channel
       \<and> cpu_put channel' = cpu_put channel
       \<and> gpu_get channel' < num_gpfifo_entries channel
       \<and> (channel' \<noteq> channel \<longrightarrow>
            ring_distance (num_gpfifo_entries channel) (gpu_get channel') (cpu_put channel)
              < ring_distance (num_gpfifo_entries channel) (gpu_get channel) (cpu_put channel))"
proof -
  from assms(1) obtain g c1 where
    r: "reclaim completed_value mode n channel (gpu_get channel) = Inr (g, c1)"
    and c': "channel' = c1\<lparr>gpu_get := g\<rparr>"
    by (auto simp: reclaim_from_def split: sum.splits)
  note fr = reclaim_frame [OF r]
  note pr = reclaim_progress [OF r assms(2,3)]
  have "channel' \<noteq> channel \<Longrightarrow> c1 \<noteq> channel"
  proof
    assume ne: "channel' \<noteq> channel" and eq: "c1 = channel"
    show False
    proof (cases n)
      case 0
      with r eq c' ne show False by simp
    next
      case (Suc m)
      with reclaim_unchanged [OF r [unfolded eq]] have "g = gpu_get channel" by simp
      with eq c' ne show False by simp
    qed
  qed
  with fr pr c' show ?thesis by auto
qed

lemma reclaim_from_unchanged:
  assumes "reclaim_from completed_value mode n channel = Inr channel" and "0 < n"
  shows "reclaim_from completed_value mode m channel = Inr channel"
proof -
  from assms(1) obtain g c1 where
    r: "reclaim completed_value mode n channel (gpu_get channel) = Inr (g, c1)"
    and c': "channel = c1\<lparr>gpu_get := g\<rparr>"
    by (auto simp: reclaim_from_def split: sum.splits)
  from reclaim_frame [OF r] have "gpu_get c1 = gpu_get channel" by simp
  with c' have g: "g = gpu_get channel"
    by (metis uvm_channel_t.select_convs(3) uvm_channel_t.surjective uvm_channel_t.update_convs(3))
  with c' \<open>gpu_get c1 = gpu_get channel\<close> have "c1 = channel"
    by (metis uvm_channel_t.surjective uvm_channel_t.update_convs(3))
  from reclaim_unchanged [OF r [unfolded this] assms(2)] g show ?thesis
    by (simp add: reclaim_from_def)
qed

lemma update_progress_repeatedly_reclaim_from:
  assumes "cpu_put channel < num_gpfifo_entries channel"
    and "gpu_get channel < num_gpfifo_entries channel"
    and "0 < k"
  shows "update_progress_repeatedly completed_value k channel =
     Some (reclaim_from completed_value UVM_CHANNEL_UPDATE_MODE_COMPLETED
             (unat (num_gpfifo_entries channel)) channel)"
  using assms
proof (induction "ring_distance (num_gpfifo_entries channel) (gpu_get channel) (cpu_put channel)"
        arbitrary: channel rule: less_induct)
  case less
  let ?mode = UVM_CHANNEL_UPDATE_MODE_COMPLETED
  let ?N = "unat (num_gpfifo_entries channel)"
  have kpos: "0 < unat k" using less.prems(3) by (simp add: word_less_nat_alt)
  have all_split: "reclaim_from completed_value ?mode ?N channel =
      (case reclaim_from completed_value ?mode (unat k) channel of
         Inl f \<Rightarrow> Inl f
       | Inr channel' \<Rightarrow> reclaim_from completed_value ?mode ?N channel')"
    using reclaim_from_saturates [OF less.prems(2,1) order_refl, of completed_value ?mode "unat k"]
      reclaim_from_add [of completed_value ?mode "unat k" ?N channel]
    by (simp add: add.commute)
  show ?case
  proof (cases "reclaim_from completed_value ?mode (unat k) channel")
    case (Inl f)
    then show ?thesis
      using all_split
      by (subst update_progress_repeatedly.simps) (simp add: with_max_reclaim_from)
  next
    case (Inr channel')
    show ?thesis
    proof (cases "channel' = channel")
      case True
      with Inr reclaim_from_unchanged [OF _ kpos, of completed_value ?mode channel ?N]
      show ?thesis
        by (subst update_progress_repeatedly.simps) (simp add: with_max_reclaim_from)
    next
      case False
      from reclaim_from_progress [OF Inr less.prems(2,1)] False
      have fr: "num_gpfifo_entries channel' = num_gpfifo_entries channel"
        "cpu_put channel' = cpu_put channel"
        "gpu_get channel' < num_gpfifo_entries channel"
        and d: "ring_distance (num_gpfifo_entries channel) (gpu_get channel') (cpu_put channel)
              < ring_distance (num_gpfifo_entries channel) (gpu_get channel) (cpu_put channel)"
        by simp_all
      have "update_progress_repeatedly completed_value k channel' =
          Some (reclaim_from completed_value ?mode (unat (num_gpfifo_entries channel')) channel')"
        using d fr less.prems by (intro less.hyps) simp_all
      then show ?thesis
        using Inr False all_split fr
        by (subst update_progress_repeatedly.simps) (simp add: with_max_reclaim_from)
    qed
  qed
qed

text \<open>
  C4. For every channel whose indices lie in the ring, every completed value and every
  bound \<open>k \<ge> 1\<close>: calling \<^verbatim>\<open>uvm_channel_update_progress_with_max\<close> with bound \<open>k\<close> in
  \<open>COMPLETED\<close> mode again and again until a call reclaims nothing ends, and ends in the
  very channel state (\<open>gpu_get\<close>, the push-info free list, the entries still pending, and
  the pushbuffer notifications made on the way) that one call of
  \<^verbatim>\<open>uvm_channel_update_progress_all\<close> produces, a fault of the walk included.  The
  bound of that single call, the ring size, is as good as any larger one.
\<close>

theorem update_progress_repeatedly_eq_all:
  assumes "cpu_put channel < num_gpfifo_entries channel"
    and "gpu_get channel < num_gpfifo_entries channel"
    and "0 < k"
  shows "update_progress_repeatedly completed_value k channel =
           Some (case uvm_channel_update_progress_all channel completed_value of
                   Inl f \<Rightarrow> Inl f
                 | Inr (pending_gpfifos, channel') \<Rightarrow> Inr channel')
       \<and> (\<forall>m. num_gpfifo_entries channel \<le> m \<longrightarrow>
            uvm_channel_update_progress_with_max channel completed_value m
              UVM_CHANNEL_UPDATE_MODE_COMPLETED
            = uvm_channel_update_progress_all channel completed_value)"
proof (intro conjI allI impI)
  show "update_progress_repeatedly completed_value k channel =
           Some (case uvm_channel_update_progress_all channel completed_value of
                   Inl f \<Rightarrow> Inl f
                 | Inr (pending_gpfifos, channel') \<Rightarrow> Inr channel')"
    using update_progress_repeatedly_reclaim_from [OF assms]
    by (simp add: uvm_channel_update_progress_all_def channel_update_progress_all_def
        with_max_reclaim_from split: sum.splits)
next
  fix m :: NvU32
  assume "num_gpfifo_entries channel \<le> m"
  then have "unat m = unat (num_gpfifo_entries channel)
      + (unat m - unat (num_gpfifo_entries channel))"
    by (simp add: word_le_nat_alt)
  with reclaim_from_saturates [OF assms(2,1) order_refl, of completed_value
      UVM_CHANNEL_UPDATE_MODE_COMPLETED "unat m - unat (num_gpfifo_entries channel)"]
  have "reclaim_from completed_value UVM_CHANNEL_UPDATE_MODE_COMPLETED (unat m) channel
      = reclaim_from completed_value UVM_CHANNEL_UPDATE_MODE_COMPLETED
          (unat (num_gpfifo_entries channel)) channel"
    by simp
  then show "uvm_channel_update_progress_with_max channel completed_value m
              UVM_CHANNEL_UPDATE_MODE_COMPLETED
            = uvm_channel_update_progress_all channel completed_value"
    by (simp add: uvm_channel_update_progress_all_def channel_update_progress_all_def
        with_max_reclaim_from)
qed

lemma example_channel_progress_all:
  "uvm_channel_update_progress_all example_channel 2 =
     Inr (1, example_channel
            \<lparr>gpu_get := 2,
             available_push_infos := [3, 0, 1],
             external_calls := [Pushbuffer_mark_completed (example_entry 1 0),
                                Pushbuffer_mark_completed (example_entry 2 1)]\<rparr>)"
  by (simp add: uvm_channel_update_progress_all_def channel_update_progress_all_def
      uvm_channel_update_progress_with_max_def update_progress_loop.simps
      example_channel_def example_entry_def call_def Let_def)

theorem update_progress_repeatedly_eq_all_witness:
  "update_progress_repeatedly 2 1 example_channel =
     Some (Inr (example_channel
            \<lparr>gpu_get := 2,
             available_push_infos := [3, 0, 1],
             external_calls := [Pushbuffer_mark_completed (example_entry 1 0),
                                Pushbuffer_mark_completed (example_entry 2 1)]\<rparr>))
   \<and> uvm_channel_update_progress_with_max example_channel 2 4294967295
        UVM_CHANNEL_UPDATE_MODE_COMPLETED
      = uvm_channel_update_progress_all example_channel 2"
proof -
  have h: "cpu_put example_channel < num_gpfifo_entries example_channel"
    "gpu_get example_channel < num_gpfifo_entries example_channel" "(0::NvU32) < 1"
    by (simp_all add: example_channel_def)
  have m: "num_gpfifo_entries example_channel \<le> 4294967295"
    by (simp add: example_channel_def)
  from update_progress_repeatedly_eq_all [OF h, of 2] m show ?thesis
    by (simp add: example_channel_progress_all)
qed

subsection \<open>Ending a push\<close>

text \<open>
  C2. For every channel with queued value \<open>q\<close>, \<open>cpu_put\<close> index \<open>p\<close> (inside the entry
  array) and \<open>current_pushes_count = c > 0\<close>, and every push within the maximum push
  size, \<^verbatim>\<open>uvm_channel_end_push\<close> returns: it sets the queued value to \<open>q + 1\<close>, has the HAL
  encode a semaphore release whose 32-bit payload is \<open>(q + 1) mod 2\<^sup>3\<^sup>2\<close>, stores the
  tracking value \<open>q + 1\<close> in the GPFIFO entry at index \<open>p\<close>, lowers
  \<open>current_pushes_count\<close> to \<open>c - 1\<close>, and publishes \<open>cpu_put = (p + 1) mod N\<close>, to the
  channel and through \<^verbatim>\<open>write_gpu_put\<close>; the external calls are made in the order
  release, GP entry, barrier, GPPUT, pushbuffer, barrier.
\<close>

theorem uvm_channel_end_push_effect:
  assumes c: "0 < current_pushes_count channel"
    and n: "num_gpfifo_entries channel \<noteq> 0"
    and p: "unat (cpu_put channel) < length (gpfifo_entries channel)"
    and sz: "push_get_size push \<le> max_push_size"
  shows "\<exists>push' channel'.
           uvm_channel_end_push max_push_size push channel = Inr (push', channel')
         \<and> queued_value channel' = queued_value channel + 1
         \<and> external_calls channel' =
             external_calls channel @
               [Ce_semaphore_release (semaphore_gpu_va channel)
                  (ucast (queued_value channel + 1)),
                Host_set_gpfifo_entry (cpu_put channel) (pushbuffer_gpu_va_for_push push)
                  (push_get_size push),
                Mb,
                Host_write_gpu_put ((cpu_put channel + 1) mod num_gpfifo_entries channel),
                Pushbuffer_end_push (gpfifo_entries channel' ! unat (cpu_put channel)),
                Wmb]
         \<and> unat (ucast (queued_value channel + 1) :: NvU32)
             = (unat (queued_value channel) + 1) mod 2 ^ 32
         \<and> gpfifo_entries channel' =
             (gpfifo_entries channel)
               [unat (cpu_put channel) :=
                  \<lparr>tracking_semaphore_value = queued_value channel + 1,
                   pushbuffer_offset = pushbuffer_offset_for_push push,
                   pushbuffer_size = push_get_size push,
                   push_info = Some (unat (push_info_index push))\<rparr>]
         \<and> tracking_semaphore_value (gpfifo_entries channel' ! unat (cpu_put channel))
             = queued_value channel + 1
         \<and> current_pushes_count channel' = current_pushes_count channel - 1
         \<and> unat (current_pushes_count channel') + 1 = unat (current_pushes_count channel)
         \<and> cpu_put channel' = (cpu_put channel + 1) mod num_gpfifo_entries channel
         \<and> (cpu_put channel < num_gpfifo_entries channel \<longrightarrow>
              unat (cpu_put channel') =
                (unat (cpu_put channel) + 1) mod unat (num_gpfifo_entries channel))
         \<and> channel_tracking_value push' = queued_value channel + 1"
proof -
  have payload: "unat (ucast (queued_value channel + 1) :: NvU32)
             = (unat (queued_value channel) + 1) mod 2 ^ 32"
  proof -
    have "unat (ucast (queued_value channel + 1) :: NvU32)
        = unat (queued_value channel + 1) mod 2 ^ 32"
      by (simp add: unsigned_ucast_eq take_bit_eq_mod)
    also have "\<dots> = ((unat (queued_value channel) + 1) mod 2 ^ 64) mod 2 ^ 32"
      by (simp add: unat_word_ariths)
    also have "\<dots> = (unat (queued_value channel) + 1) mod 2 ^ 32"
      by (rule mod_mod_cancel) (simp add: le_imp_power_dvd)
    finally show ?thesis .
  qed
  have cnt: "unat (current_pushes_count channel - 1) + 1 = unat (current_pushes_count channel)"
  proof -
    from c have "1 \<le> unat (current_pushes_count channel)"
      by (simp add: word_less_nat_alt)
    then show ?thesis
      by (simp add: unat_sub word_le_nat_alt)
  qed
  have put: "unat ((cpu_put channel + 1) mod num_gpfifo_entries channel) =
                (unat (cpu_put channel) + 1) mod unat (num_gpfifo_entries channel)"
    if "cpu_put channel < num_gpfifo_entries channel"
  proof -
    have "unat (num_gpfifo_entries channel) < 2 ^ 32"
      using unsigned_less [of "num_gpfifo_entries channel", where 'a = nat] by simp
    with that have "unat (cpu_put channel + 1) = unat (cpu_put channel) + 1"
      by (simp add: unat_word_ariths word_less_nat_alt)
    then show ?thesis by (simp add: unat_mod)
  qed
  show ?thesis
    using c n p sz payload cnt put
    by (simp add: uvm_channel_end_push_def call_def Let_def)
qed

theorem uvm_channel_end_push_effect_witness:
  "uvm_channel_end_push 131072 example_push (example_channel\<lparr>current_pushes_count := 1\<rparr>) =
     Inr (example_push\<lparr>push_info_index := - 1, channel_tracking_value := 4\<rparr>,
          example_channel
            \<lparr>current_pushes_count := 0,
             cpu_put := 0,
             queued_value := 4,
             gpfifo_entries := [example_entry 1 0, example_entry 2 1, example_entry 3 2,
                \<lparr>tracking_semaphore_value = 4, pushbuffer_offset = 256,
                 pushbuffer_size = 64, push_info = Some 3\<rparr>],
             external_calls :=
               [Ce_semaphore_release 0 4, Host_set_gpfifo_entry 3 4096 64, Mb,
                Host_write_gpu_put 0,
                Pushbuffer_end_push \<lparr>tracking_semaphore_value = 4, pushbuffer_offset = 256,
                                     pushbuffer_size = 64, push_info = Some 3\<rparr>,
                Wmb]\<rparr>)"
proof -
  let ?ch = "example_channel\<lparr>current_pushes_count := 1\<rparr>"
  have h: "0 < current_pushes_count ?ch" "num_gpfifo_entries ?ch \<noteq> 0"
    "unat (cpu_put ?ch) < length (gpfifo_entries ?ch)" "push_get_size example_push \<le> 131072"
    by (simp_all add: example_channel_def example_push_def)
  from uvm_channel_end_push_effect [OF h] obtain push' channel' where
    r: "uvm_channel_end_push 131072 example_push ?ch = Inr (push', channel')"
    and q: "queued_value channel' = queued_value ?ch + 1"
    by blast
  from r have "uvm_channel_end_push 131072 example_push ?ch =
      Inr (push', channel'\<lparr>queued_value := queued_value ?ch + 1\<rparr>)"
    using q by simp
  then show ?thesis
    by (simp add: uvm_channel_end_push_def call_def Let_def example_channel_def
        example_push_def example_entry_def)
qed

subsection \<open>The configured ring size\<close>

lemma nat_and_pred_eq_0_iff:
  fixes n :: nat
  assumes "0 < n"
  shows "n AND (n - 1) = 0 \<longleftrightarrow> (\<exists>k. n = 2 ^ k)"
  using assms
proof (induction n rule: less_induct)
  case (less n)
  have rec: "n AND (n - 1) = 2 * ((n div 2) AND ((n - 1) div 2))"
    using less.prems by (subst and_rec) auto
  show ?case
  proof (cases "even n")
    case True
    then obtain m where m: "n = 2 * m" by (auto elim: evenE)
    with less.prems have mpos: "0 < m" by simp
    have "(n - 1) div 2 = m - 1"
    proof -
      from mpos obtain j where j: "m = Suc j" by (cases m) auto
      then have "n - 1 = 2 * j + 1" using m by simp
      then show ?thesis using j by simp
    qed
    with rec m have "n AND (n - 1) = 2 * (m AND (m - 1))" by simp
    then have "n AND (n - 1) = 0 \<longleftrightarrow> (\<exists>k. m = 2 ^ k)"
      using less.IH [of m] m mpos by simp
    also have "\<dots> \<longleftrightarrow> (\<exists>k. n = 2 ^ k)"
    proof
      assume "\<exists>k. m = 2 ^ k"
      then obtain k where "m = 2 ^ k" ..
      then have "n = 2 ^ Suc k" using m by simp
      then show "\<exists>k. n = 2 ^ k" ..
    next
      assume "\<exists>k. n = 2 ^ k"
      then obtain k where k: "n = 2 ^ k" ..
      with True less.prems have "k \<noteq> 0" by (cases k) auto
      then obtain j where "k = Suc j" by (cases k) auto
      with k m have "m = 2 ^ j" by simp
      then show "\<exists>k. m = 2 ^ k" ..
    qed
    finally show ?thesis .
  next
    case False
    then obtain m where m: "n = 2 * m + 1" by (auto elim: oddE)
    then have "(n - 1) div 2 = m" "n div 2 = m" by simp_all
    with rec have z: "n AND (n - 1) = 0 \<longleftrightarrow> m = 0" by simp
    have "(\<exists>k. n = 2 ^ k) \<longleftrightarrow> m = 0"
    proof
      assume "\<exists>k. n = 2 ^ k"
      then obtain k where k: "n = 2 ^ k" ..
      with False have "k = 0" by (cases k) auto
      with k m show "m = 0" by simp
    next
      assume "m = 0"
      with m have "n = 2 ^ 0" by simp
      then show "\<exists>k. n = 2 ^ k" ..
    qed
    with z show ?thesis by simp
  qed
qed

lemma is_power_of_2_iff:
  "is_power_of_2 n \<longleftrightarrow> (\<exists>k. unat n = 2 ^ k)"
proof (cases "n = 0")
  case True
  then show ?thesis by (simp add: is_power_of_2_def)
next
  case False
  then have pos: "0 < unat n" by (simp add: unat_gt_0)
  have "unat (n AND (n - 1)) = unat n AND (unat n - 1)"
    using False by (simp add: unsigned_and_eq unat_minus_one)
  then have "n AND (n - 1) = 0 \<longleftrightarrow> unat n AND (unat n - 1) = 0"
    by (metis unat_eq_0)
  with False nat_and_pred_eq_0_iff [OF pos] show ?thesis
    by (simp add: is_power_of_2_def)
qed

lemma init_num_gpfifo_entries_unat:
  "unat (init_num_gpfifo_entries v) =
     (let clamped = max 32 (min (2 ^ 20) (unat v))
      in if (\<exists>k. clamped = 2 ^ k) then clamped else 1024)"
proof -
  have p5: "\<exists>k. (32::nat) = 2 ^ k"
    by (rule exI [of _ 5]) simp
  have p20: "\<exists>k. (1048576::nat) = 2 ^ k"
    by (rule exI [of _ 20]) simp
  consider (low) "unat v < 32" | (high) "1048576 < unat v" | (mid) "32 \<le> unat v" "unat v \<le> 1048576"
    by linarith
  then show ?thesis
  proof cases
    case low
    then have "v < 32" by (simp add: word_less_nat_alt)
    moreover have "is_power_of_2 (32 :: NvU32)"
      using p5 by (simp add: is_power_of_2_iff)
    moreover from low have "max 32 (min (2 ^ 20) (unat v)) = 32" by simp
    ultimately show ?thesis
      using p5
      by (simp add: init_num_gpfifo_entries_def UVM_CHANNEL_NUM_GPFIFO_ENTRIES_MIN_def Let_def)
  next
    case high
    then have "\<not> v < 32" "v > 1048576" by (simp_all add: word_less_nat_alt)
    moreover have "is_power_of_2 (1048576 :: NvU32)"
      using p20 by (simp add: is_power_of_2_iff)
    moreover from high have "max 32 (min (2 ^ 20) (unat v)) = 1048576" by simp
    ultimately show ?thesis
      using p20
      by (simp add: init_num_gpfifo_entries_def UVM_CHANNEL_NUM_GPFIFO_ENTRIES_MIN_def
          UVM_CHANNEL_NUM_GPFIFO_ENTRIES_MAX_def Let_def)
  next
    case mid
    then have "\<not> v < 32" "\<not> v > 1048576" by (simp_all add: word_less_nat_alt)
    moreover from mid have "max 32 (min (2 ^ 20) (unat v)) = unat v" by simp
    ultimately show ?thesis
      by (simp add: init_num_gpfifo_entries_def UVM_CHANNEL_NUM_GPFIFO_ENTRIES_MIN_def
          UVM_CHANNEL_NUM_GPFIFO_ENTRIES_MAX_def UVM_CHANNEL_NUM_GPFIFO_ENTRIES_DEFAULT_def
          Let_def is_power_of_2_iff)
  qed
qed

lemma init_gpfifo_gpput_loc_num:
  "conf_num_gpfifo_entries
     (fst (init_gpfifo_gpput_loc params platform s1 s2 conf0 log0)) =
   conf_num_gpfifo_entries conf0"
  by (simp add: init_gpfifo_gpput_loc_def Let_def split: prod.splits)

lemma init_channel_manager_conf_num:
  "conf_num_gpfifo_entries (fst (init_channel_manager_conf params platform)) =
     init_num_gpfifo_entries (uvm_channel_num_gpfifo_entries params)"
  by (simp add: init_channel_manager_conf_def Let_def init_gpfifo_gpput_loc_num
      split: prod.splits)

text \<open>
  An invalid \<^verbatim>\<open>uvm_channel_gpfifo_loc\<close> on a GPU with memory and GPFIFO-in-vidmem support:
  all three strings are reported invalid, both calls of \<^verbatim>\<open>string_to_buffer_location\<close>
  fail their assertion, and the configuration is the default one with the clamped
  number of entries.
\<close>

lemma example_conf_20_bogus:
  "init_channel_manager_conf (example_params 20 ''bogus'' ''auto'' ''auto'') example_platform =
     (\<lparr>conf_num_gpfifo_entries = 32, conf_gpfifo_loc = UVM_BUFFER_LOCATION_VID,
       conf_gpput_loc = UVM_BUFFER_LOCATION_VID,
       conf_pushbuffer_loc = UVM_BUFFER_LOCATION_SYS\<rparr>,
      [Invalid_num_gpfifo_entries 20 32, Invalid_pushbuffer_loc ''auto'' ''auto'',
       Invalid_gpfifo_loc ''bogus'' ''auto'', Invalid_gpput_loc ''auto'' ''auto''],
      [Assertion_failed ''is_string_valid_location(loc)'',
       Assertion_failed ''is_string_valid_location(loc)''])"
  by (simp add: init_channel_manager_conf_def init_gpfifo_gpput_loc_def
      string_to_buffer_location_def is_string_valid_location_def
      init_num_gpfifo_entries_def is_power_of_2_def example_params_def example_platform_def
      UVM_CHANNEL_NUM_GPFIFO_ENTRIES_MIN_def UVM_CHANNEL_NUM_GPFIFO_ENTRIES_MAX_def
      UVM_CHANNEL_NUM_GPFIFO_ENTRIES_DEFAULT_def UVM_CHANNEL_GPFIFO_LOC_DEFAULT_def
      UVM_CHANNEL_GPPUT_LOC_DEFAULT_def UVM_CHANNEL_PUSHBUFFER_LOC_DEFAULT_def Let_def)

text \<open>
  C7. For every set of module parameters and every GPU, the effective
  \<open>num_gpfifo_entries\<close> that \<^verbatim>\<open>init_channel_manager_conf\<close> leaves is the configured value
  clamped into \<open>[32, 2\<^sup>2\<^sup>0]\<close>, replaced by the default 1024 when the clamped value is not a
  power of two; a configured 20 gives 32 and a configured 1500 gives 1024.  The location
  strings, valid or not, have no part in it.
\<close>

theorem init_channel_manager_conf_num_gpfifo_entries:
  "unat (conf_num_gpfifo_entries (fst (init_channel_manager_conf params platform))) =
     (let clamped = max 32 (min (2 ^ 20) (unat (uvm_channel_num_gpfifo_entries params)))
      in if (\<exists>k. clamped = 2 ^ k) then clamped else 1024)
   \<and> (uvm_channel_num_gpfifo_entries params = 20 \<longrightarrow>
        conf_num_gpfifo_entries (fst (init_channel_manager_conf params platform)) = 32)
   \<and> (uvm_channel_num_gpfifo_entries params = 1500 \<longrightarrow>
        conf_num_gpfifo_entries (fst (init_channel_manager_conf params platform)) = 1024)"
proof (intro conjI impI)
  note num = init_channel_manager_conf_num [of params platform]
  show "unat (conf_num_gpfifo_entries (fst (init_channel_manager_conf params platform))) =
           (let clamped = max 32 (min (2 ^ 20) (unat (uvm_channel_num_gpfifo_entries params)))
            in if (\<exists>k. clamped = 2 ^ k) then clamped else 1024)"
    unfolding num by (rule init_num_gpfifo_entries_unat)
  show "conf_num_gpfifo_entries (fst (init_channel_manager_conf params platform)) = 32"
    if "uvm_channel_num_gpfifo_entries params = 20"
    unfolding num that
    by (simp add: init_num_gpfifo_entries_def UVM_CHANNEL_NUM_GPFIFO_ENTRIES_MIN_def
        is_power_of_2_def)
  show "conf_num_gpfifo_entries (fst (init_channel_manager_conf params platform)) = 1024"
    if "uvm_channel_num_gpfifo_entries params = 1500"
    unfolding num that
    by (simp add: init_num_gpfifo_entries_def UVM_CHANNEL_NUM_GPFIFO_ENTRIES_MIN_def
        UVM_CHANNEL_NUM_GPFIFO_ENTRIES_MAX_def UVM_CHANNEL_NUM_GPFIFO_ENTRIES_DEFAULT_def
        is_power_of_2_def)
qed

theorem init_channel_manager_conf_num_gpfifo_entries_witness:
  "conf_num_gpfifo_entries
     (fst (init_channel_manager_conf (example_params 20 ''bogus'' ''sys'' ''vid'')
             example_platform)) = 32
   \<and> conf_num_gpfifo_entries
       (fst (init_channel_manager_conf (example_params 1500 ''auto'' ''auto'' ''auto'')
               example_platform)) = 1024"
  using init_channel_manager_conf_num_gpfifo_entries
          [of "example_params 20 ''bogus'' ''sys'' ''vid''" example_platform]
        init_channel_manager_conf_num_gpfifo_entries
          [of "example_params 1500 ''auto'' ''auto'' ''auto''" example_platform]
  by (simp add: example_params_def)

subsection \<open>Validation of the location strings\<close>

text \<open>
  C8. The claim is that a string outside \<open>{sys, vid, auto}\<close> given for any of the three
  location parameters is detected and replaced by \<open>auto\<close> with a log line, whatever the
  other two parameters are.  \<^verbatim>\<open>is_string_valid_location\<close> tests \<^verbatim>\<open>uvm_channel_gpfifo_loc\<close>
  instead of its argument, so the code does otherwise: with a valid \<open>gpfifo_loc\<close> the
  invalid strings of the other two parameters pass unnoticed and nothing is logged;
  with an invalid \<open>gpfifo_loc\<close> the valid \<open>pushbuffer_loc = vid\<close> is reported invalid and
  the pushbuffer stays in sysmem, where the same parameter beside a valid \<open>gpfifo_loc\<close>
  puts it in vidmem.  No assertion fails on any of the three inputs.
\<close>

theorem init_channel_manager_conf_location_not_checked:
  "init_channel_manager_conf (example_params 1024 ''auto'' ''bogus'' ''nowhere'') example_platform =
     (\<lparr>conf_num_gpfifo_entries = 1024, conf_gpfifo_loc = UVM_BUFFER_LOCATION_VID,
       conf_gpput_loc = UVM_BUFFER_LOCATION_VID,
       conf_pushbuffer_loc = UVM_BUFFER_LOCATION_SYS\<rparr>, [], [])
   \<and> init_channel_manager_conf (example_params 1024 ''bogus'' ''auto'' ''vid'')
        (example_platform\<lparr>gpfifo_in_vidmem_supported := False\<rparr>) =
     (\<lparr>conf_num_gpfifo_entries = 1024, conf_gpfifo_loc = UVM_BUFFER_LOCATION_DEFAULT,
       conf_gpput_loc = UVM_BUFFER_LOCATION_DEFAULT,
       conf_pushbuffer_loc = UVM_BUFFER_LOCATION_SYS\<rparr>,
      [Invalid_pushbuffer_loc ''vid'' ''auto''], [])
   \<and> init_channel_manager_conf (example_params 1024 ''auto'' ''auto'' ''vid'')
        (example_platform\<lparr>gpfifo_in_vidmem_supported := False\<rparr>) =
     (\<lparr>conf_num_gpfifo_entries = 1024, conf_gpfifo_loc = UVM_BUFFER_LOCATION_DEFAULT,
       conf_gpput_loc = UVM_BUFFER_LOCATION_DEFAULT,
       conf_pushbuffer_loc = UVM_BUFFER_LOCATION_VID\<rparr>, [], [])"
  by (simp add: init_channel_manager_conf_def init_gpfifo_gpput_loc_def
      string_to_buffer_location_def is_string_valid_location_def
      init_num_gpfifo_entries_def is_power_of_2_def example_params_def example_platform_def
      UVM_CHANNEL_NUM_GPFIFO_ENTRIES_MIN_def UVM_CHANNEL_NUM_GPFIFO_ENTRIES_MAX_def
      UVM_CHANNEL_NUM_GPFIFO_ENTRIES_DEFAULT_def UVM_CHANNEL_GPFIFO_LOC_DEFAULT_def
      UVM_CHANNEL_GPPUT_LOC_DEFAULT_def UVM_CHANNEL_PUSHBUFFER_LOC_DEFAULT_def Let_def)

theorem init_channel_manager_conf_location_not_checked_witness:
  "\<exists>conf. init_channel_manager_conf (example_params 1024 ''auto'' ''bogus'' ''nowhere'')
            example_platform = (conf, [], [])"
  using init_channel_manager_conf_location_not_checked by blast

subsection \<open>The number of channels in a pool\<close>

lemma channel_create_error_status:
  "channel_create conf_num with_procfs env = Inl status \<Longrightarrow> status \<noteq> NV_OK"
  by (auto simp: channel_create_def Let_def split: if_splits)

lemma channel_pool_create_loop_error_status:
  "channel_pool_create_loop conf_num with_procfs env n i pool = Inl (status, pool')
   \<Longrightarrow> status \<noteq> NV_OK"
proof (induction conf_num with_procfs env n i pool rule: channel_pool_create_loop.induct)
  case (1 conf_num with_procfs env n i pool)
  from "1.prems" show ?case
    apply (subst (asm) channel_pool_create_loop.simps)
    apply (auto simp: Let_def split: if_splits sum.splits
        dest: channel_create_error_status "1.IH")
    done
qed

lemma channel_pool_create_loop_count:
  "channel_pool_create_loop conf_num with_procfs env n i pool = Inr pool' \<Longrightarrow> i \<le> n
   \<Longrightarrow> unat (num_channels pool) + (unat n - unat i) < 2 ^ 32
   \<Longrightarrow> unat (num_channels pool') = unat (num_channels pool) + (unat n - unat i)
     \<and> length (channels pool') = length (channels pool) + (unat n - unat i)
     \<and> is_proxy pool' = is_proxy pool \<and> ce_index pool' = ce_index pool"
proof (induction conf_num with_procfs env n i pool rule: channel_pool_create_loop.induct)
  case (1 conf_num with_procfs env n i pool)
  show ?case
  proof (cases "i < n")
    case False
    with "1.prems" show ?thesis
      by (subst (asm) channel_pool_create_loop.simps) (simp add: word_le_nat_alt word_less_nat_alt)
  next
    case True
    then have lt: "unat i < unat n" by (simp add: word_less_nat_alt)
    have "unat n < 2 ^ 32"
      using unsigned_less [of n, where 'a = nat] by simp
    with lt have suc: "unat (i + 1) = unat i + 1" by (simp add: unat_word_ariths)
    with lt have le: "i + 1 \<le> n" by (simp add: word_le_nat_alt)
    from "1.prems"(1) True obtain channel where
      cc: "channel_create conf_num with_procfs (channel_env env (unat i)) = Inr channel"
      and ok: "\<not> init_channel env (unat i) \<noteq> NV_OK"
      and rec: "channel_pool_create_loop conf_num with_procfs env n (i + 1)
                  (pool\<lparr>num_channels := num_channels pool + 1,
                        channels := channels pool @ [channel]\<rparr>) = Inr pool'"
      by (subst (asm) channel_pool_create_loop.simps)
        (auto simp: Let_def split: sum.splits if_splits)
    have inc: "unat (num_channels pool + 1) = unat (num_channels pool) + 1"
      using "1.prems"(3) lt by (simp add: unat_word_ariths)
    let ?pool1 = "pool\<lparr>num_channels := num_channels pool + 1,
                        channels := channels pool @ [channel]\<rparr>"
    have bound: "unat (num_channels ?pool1) + (unat n - unat (i + 1)) < 2 ^ 32"
      using inc suc lt "1.prems"(3) by simp
    from "1.IH" [OF True cc refl ok rec le bound]
    have "unat (num_channels pool') = unat (num_channels ?pool1) + (unat n - unat (i + 1))"
      "length (channels pool') = length (channels ?pool1) + (unat n - unat (i + 1))"
      "is_proxy pool' = is_proxy pool" "ce_index pool' = ce_index pool"
      by simp_all
    moreover have "unat (num_channels ?pool1) + (unat n - unat (i + 1))
        = unat (num_channels pool) + (unat n - unat i)"
      using inc suc lt by simp
    moreover have "length (channels ?pool1) + (unat n - unat (i + 1))
        = length (channels pool) + (unat n - unat i)"
      using suc lt by simp
    ultimately show ?thesis by simp
  qed
qed

text \<open>
  C10. Every pool \<^verbatim>\<open>channel_pool_create\<close> creates successfully holds exactly two
  channels when it is not a proxy pool and exactly one when it is; it carries the
  copy-engine index and the proxy flag it was created with, and the manager's pool count
  has grown by one.
\<close>

theorem channel_pool_create_num_channels:
  assumes "channel_pool_create conf_num pools_before ce proxy with_procfs env =
             Inr (NV_OK, pool, pools_after)"
  shows "num_channels pool = (if proxy then 1 else 2)
       \<and> length (channels pool) = (if proxy then 1 else 2)
       \<and> is_proxy pool = proxy \<and> ce_index pool = ce
       \<and> pools_after = pools_before + 1"
proof -
  let ?pool0 = "\<lparr>ce_index = ce, is_proxy = proxy, num_channels = 0, channels = []\<rparr>"
  let ?n = "channel_pool_num_channels ?pool0"
  from assms have loop: "channel_pool_create_loop conf_num with_procfs env ?n 0 ?pool0 = Inr pool"
    and pools: "pools_after = pools_before + 1"
    by (auto simp: channel_pool_create_def Let_def
        split: if_splits sum.splits prod.splits dest: channel_pool_create_loop_error_status)
  have "unat (num_channels ?pool0) + (unat ?n - unat (0::NvU32)) < 2 ^ 32"
    by (simp add: channel_pool_num_channels_def)
  from channel_pool_create_loop_count [OF loop _ this]
  have "unat (num_channels pool) = unat ?n" "length (channels pool) = unat ?n"
    "is_proxy pool = proxy" "ce_index pool = ce"
    by simp_all
  with pools show ?thesis
    by (simp add: channel_pool_num_channels_def word_unat_eq_iff split: if_splits)
qed

lemma channel_pool_create_ok:
  "\<exists>pool. channel_pool_create 1024 0 ce proxy False ok_pool_env = Inr (NV_OK, pool, 1)"
proof -
  obtain channel where c: "channel_create 1024 False ok_env = Inr channel"
    by (simp add: channel_create_def ok_env_def)
  show ?thesis
    by (cases proxy)
      (simp_all add: channel_pool_create_def channel_pool_create_loop.simps
        channel_pool_num_channels_def ok_pool_env_def c Let_def)
qed

theorem channel_pool_create_num_channels_witness:
  "(\<exists>pool. channel_pool_create 1024 0 0 False False ok_pool_env = Inr (NV_OK, pool, 1)
       \<and> num_channels pool = 2 \<and> length (channels pool) = 2)
   \<and> (\<exists>pool. channel_pool_create 1024 0 0 True False ok_pool_env = Inr (NV_OK, pool, 1)
       \<and> num_channels pool = 1 \<and> length (channels pool) = 1)"
proof -
  obtain p2 where p2: "channel_pool_create 1024 0 0 False False ok_pool_env = Inr (NV_OK, p2, 1)"
    using channel_pool_create_ok [of 0 False] ..
  obtain p1 where p1: "channel_pool_create 1024 0 0 True False ok_pool_env = Inr (NV_OK, p1, 1)"
    using channel_pool_create_ok [of 0 True] ..
  from channel_pool_create_num_channels [OF p2] channel_pool_create_num_channels [OF p1] p1 p2
  show ?thesis by simp
qed

subsection \<open>Copy-engine selection on a three-engine GPU\<close>

lemma three_ce_caps_nth:
  "three_ce_caps m1 m2 ! 0 = no_caps\<lparr>supported := True, sysmem := True\<rparr>"
  "three_ce_caps m1 m2 ! Suc 0 = no_caps\<lparr>supported := True, sysmem := True, p2p := True,
      nvlinkP2p := True, cePceMask := m1\<rparr>"
  "three_ce_caps m1 m2 ! 2 = no_caps\<lparr>supported := True, p2p := True, cePceMask := m2\<rparr>"
  "3 \<le> n \<Longrightarrow> n < 64 \<Longrightarrow> three_ce_caps m1 m2 ! n = no_caps"
  "length (three_ce_caps m1 m2) = 64"
  by (simp_all add: three_ce_caps_def nth_append)

lemma pick_ce_loop_skip:
  assumes "\<And>n. unat i \<le> n \<Longrightarrow> n < 64 \<Longrightarrow> \<not> ce_usable_for_channel_type type (caps ! n)"
    and "length caps = 64" and "3 \<le> unat i"
  shows "pick_ce_loop caps type preferred_ce i bm best_ce = Inr (bm, best_ce)"
  using assms
proof (induction caps type preferred_ce i bm best_ce rule: pick_ce_loop.induct)
  case (1 ce_caps type preferred_ce i bm best_ce)
  show ?case
  proof (cases "i < UVM_COPY_ENGINE_COUNT_MAX")
    case False
    then show ?thesis by (subst pick_ce_loop.simps) simp
  next
    case True
    then have lt: "unat i < 64" by (simp add: UVM_COPY_ENGINE_COUNT_MAX_def word_less_nat_alt)
    then have suc: "unat (i + 1) = unat i + 1" by (simp add: unat_word_ariths)
    have nu: "\<not> ce_usable_for_channel_type type (ce_caps ! unat i)"
      using "1.prems"(1) [of "unat i"] lt by simp
    have "pick_ce_loop ce_caps type preferred_ce (i + 1) bm best_ce = Inr (bm, best_ce)"
      using True lt nu "1.prems" suc
      by (intro "1.IH"(1)) (simp_all)
    then show ?thesis
      using True lt nu "1.prems"(2)
      by (subst pick_ce_loop.simps) simp
  qed
qed

lemma not_usable_no_caps: "\<not> ce_usable_for_channel_type type no_caps"
  by (simp add: ce_usable_for_channel_type_def no_caps_def)

lemma pick_ce_loop_three:
  "pick_ce_loop (three_ce_caps m1 m2) type preferred_ce 3 bm best_ce = Inr (bm, best_ce)"
proof (rule pick_ce_loop_skip)
  fix n assume "unat (3::NvU32) \<le> n" "n < 64"
  then show "\<not> ce_usable_for_channel_type type (three_ce_caps m1 m2 ! n)"
    by (simp add: three_ce_caps_nth not_usable_no_caps)
qed (simp_all add: three_ce_caps_nth)

lemma replicate5: "replicate 5 x = [x, x, x, x, x]"
  by (simp add: numeral_eq_Suc)

lemma usable_simps:
  "ce_usable_for_channel_type type (no_caps\<lparr>supported := True, sysmem := True\<rparr>)
     = (type \<noteq> UVM_CHANNEL_TYPE_GPU_TO_GPU)"
  "ce_usable_for_channel_type type (no_caps\<lparr>supported := True, sysmem := True, p2p := True,
      nvlinkP2p := True, cePceMask := m1\<rparr>) = True"
  "ce_usable_for_channel_type type (no_caps\<lparr>supported := True, p2p := True, cePceMask := m2\<rparr>)
     = (type \<noteq> UVM_CHANNEL_TYPE_CPU_TO_GPU \<and> type \<noteq> UVM_CHANNEL_TYPE_GPU_TO_CPU)"
  by (cases type; simp add: ce_usable_for_channel_type_def no_caps_def)+

lemma no_caps_fields:
  "supported no_caps = False" "grce no_caps = False" "shared no_caps = False"
  "sysmemRead no_caps = False" "sysmemWrite no_caps = False" "sysmem no_caps = False"
  "nvlinkP2p no_caps = False" "p2p no_caps = False" "cePceMask no_caps = 0"
  by (simp_all add: no_caps_def)

lemma hweight32_0: "hweight32 0 = 0"
  by (simp add: hweight32_def)

lemma upt_0_5: "[0..<5] = [0, Suc 0, 2, 3, 4]"
  by (simp add: numeral_eq_Suc upt_rec)

lemma set_bit_values:
  "set_bit 0 (0 :: 64 word) = 1" "set_bit (Suc 0) (1 :: 64 word) = 3"
  "set_bit 0 (3 :: 64 word) = 3" "set_bit (Suc 0) (3 :: 64 word) = 3"
  "set_bit 2 (3 :: 64 word) = 7"
  "set_bit 0 (7 :: 64 word) = 7" "set_bit (Suc 0) (7 :: 64 word) = 7"
  "set_bit 2 (7 :: 64 word) = 7"
  by (simp_all add: set_bit_eq_or)

lemmas pick_eval = upt_0_5 set_bit_values three_ce_caps_nth usable_simps UVM_COPY_ENGINE_COUNT_MAX_def
  UVM_CHANNEL_TYPE_COUNT_def compare_ce_for_channel_type_def compare_ce_by_type_def
  ce_usage_count_def no_caps_fields pick_ce_loop_three hweight32_0 Let_def

lemma pick_cpu_to_gpu:
  "pick_ce_for_channel_type (three_ce_caps m1 m2) UVM_CHANNEL_TYPE_CPU_TO_GPU 0 [64, 64, 64, 64, 64]
     = Inr (NV_OK, 3, [0, 64, 64, 64, 64])"
  apply (simp add: pick_ce_for_channel_type_def UVM_COPY_ENGINE_COUNT_MAX_def)
  apply (subst pick_ce_loop.simps, simp add: pick_eval)
  apply (subst pick_ce_loop.simps, simp add: pick_eval)
  apply (subst pick_ce_loop.simps, simp add: pick_eval)
  done

lemma pick_gpu_to_cpu:
  "pick_ce_for_channel_type (three_ce_caps m1 m2) UVM_CHANNEL_TYPE_GPU_TO_CPU 3 [0, 64, 64, 64, 64]
     = Inr (NV_OK, 3, [0, 0, 64, 64, 64])"
  apply (simp add: pick_ce_for_channel_type_def UVM_COPY_ENGINE_COUNT_MAX_def)
  apply (subst pick_ce_loop.simps, simp add: pick_eval)
  apply (subst pick_ce_loop.simps, simp add: pick_eval)
  apply (subst pick_ce_loop.simps, simp add: pick_eval)
  done

lemma pick_gpu_internal:
  assumes "hweight32 m1 = 8" "hweight32 m2 = 16"
  shows "pick_ce_for_channel_type (three_ce_caps m1 m2) UVM_CHANNEL_TYPE_GPU_INTERNAL 3
           [0, 0, 64, 64, 64]
         = Inr (NV_OK, 7, [0, 0, 2, 64, 64])"
  using assms
  apply (simp add: pick_ce_for_channel_type_def UVM_COPY_ENGINE_COUNT_MAX_def)
  apply (subst pick_ce_loop.simps, simp add: pick_eval)
  apply (subst pick_ce_loop.simps, simp add: pick_eval)
  apply (subst pick_ce_loop.simps, simp add: pick_eval)
  done

lemma pick_gpu_to_gpu:
  assumes "hweight32 m1 = 8" "hweight32 m2 = 16"
  shows "pick_ce_for_channel_type (three_ce_caps m1 m2) UVM_CHANNEL_TYPE_GPU_TO_GPU 7
           [0, 0, 2, 64, 64]
         = Inr (NV_OK, 7, [0, 0, 2, 64, 2])"
  using assms
  apply (simp add: pick_ce_for_channel_type_def UVM_COPY_ENGINE_COUNT_MAX_def)
  apply (subst pick_ce_loop.simps, simp add: pick_eval)
  apply (subst pick_ce_loop.simps, simp add: pick_eval)
  apply (subst pick_ce_loop.simps, simp add: pick_eval)
  done

lemma pick_memops:
  "pick_ce_for_channel_type (three_ce_caps m1 m2) UVM_CHANNEL_TYPE_MEMOPS 7
           [0, 0, 2, 64, 2]
         = Inr (NV_OK, 7, [0, 0, 2, 1, 2])"
  apply (simp add: pick_ce_for_channel_type_def UVM_COPY_ENGINE_COUNT_MAX_def)
  apply (subst pick_ce_loop.simps, simp add: pick_eval)
  apply (subst pick_ce_loop.simps, simp add: pick_eval)
  apply (subst pick_ce_loop.simps, simp add: pick_eval)
  done

lemma pick_three:
  assumes "hweight32 m1 = 8" "hweight32 m2 = 16"
  shows "channel_manager_pick_copy_engines NV_OK (three_ce_caps m1 m2) 0 [64, 64, 64, 64, 64]
         = Inr (NV_OK, 7, [0, 0, 2, 1, 2])"
  by (simp add: channel_manager_pick_copy_engines_def UVM_CHANNEL_TYPE_COUNT_def
      UVM_COPY_ENGINE_COUNT_MAX_def replicate5 pick_cpu_to_gpu pick_gpu_to_cpu
      pick_gpu_internal [OF assms] pick_gpu_to_gpu [OF assms] pick_memops)

lemma channel_pool_create_ok_env:
  "\<exists>pool. channel_pool_create n k ce proxy False ok_pool_env = Inr (NV_OK, pool, k + 1)
     \<and> ce_index pool = ce \<and> is_proxy pool = proxy
     \<and> num_channels pool = (if proxy then 1 else 2)
     \<and> length (channels pool) = (if proxy then 1 else 2)"
proof -
  obtain channel where c: "channel_create n False ok_env = Inr channel"
    by (simp add: channel_create_def ok_env_def)
  show ?thesis
    by (cases proxy)
      (simp_all add: channel_pool_create_def channel_pool_create_loop.simps
        channel_pool_num_channels_def ok_pool_env_def c Let_def)
qed

lemma replicate3: "replicate 3 x = [x, x, x]"
  by (simp add: numeral_eq_Suc)

lemma ce_mask_7:
  "filter (bit (7 :: 64 word)) [0..<64] = [0, 1, 2]"
  "bitmap_weight 7 64 = 3"
  "bitmap_weight 7 0 = 0" "bitmap_weight 7 (Suc 0) = 1" "bitmap_weight 7 2 = 2"
  "bit (7 :: 64 word) 0" "bit (7 :: 64 word) (Suc 0)" "bit (7 :: 64 word) 2"
  by (code_simp+)

lemma create_pools_three:
  assumes "hweight32 m1 = 8" "hweight32 m2 = 16"
  shows "\<exists>manager. channel_manager_create_pools (new_manager c) False (three_ce_env m1 m2)
                      = Inr (NV_OK, manager)
           \<and> ce_mask manager = 7
           \<and> num_channel_pools manager = 3
           \<and> map ce_index (channel_pools manager) = [0, 1, 2]
           \<and> map is_proxy (channel_pools manager) = [False, False, False]
           \<and> map num_channels (channel_pools manager) = [2, 2, 2]
           \<and> default_for_type manager = [Some 0, Some 0, Some 2, Some 1, Some 2]"
proof -
  let ?n = "conf_num_gpfifo_entries c"
  obtain p0 where p0: "channel_pool_create ?n 0 0 False False ok_pool_env = Inr (NV_OK, p0, 1)"
    "ce_index p0 = 0" "is_proxy p0 = False" "num_channels p0 = 2"
    using channel_pool_create_ok_env [of ?n 0 0 False] by auto
  obtain p1 where p1: "channel_pool_create ?n 1 1 False False ok_pool_env = Inr (NV_OK, p1, 2)"
    "ce_index p1 = 1" "is_proxy p1 = False" "num_channels p1 = 2"
    using channel_pool_create_ok_env [of ?n 1 1 False] by auto
  obtain p2 where p2: "channel_pool_create ?n 2 2 False False ok_pool_env = Inr (NV_OK, p2, 3)"
    "ce_index p2 = 2" "is_proxy p2 = False" "num_channels p2 = 2"
    using channel_pool_create_ok_env [of ?n 2 2 False] by auto
  show ?thesis
    by (simp add: channel_manager_create_pools_def new_manager_def three_ce_env_def
        pick_three [OF assms] ce_mask_7 p0 p1 p2
        UVM_CHANNEL_TYPE_COUNT_def UVM_COPY_ENGINE_COUNT_MAX_def upt_0_5 channel_manager_ce_pool_def Let_def
        replicate3 replicate5)
qed

text \<open>
  C3. With the capability table in which CE 0 reaches sysmem, CE 1 reaches sysmem and
  peers over NVLINK and has 8 PCEs, and CE 2 reaches peers and has 16 PCEs (whatever
  masks have those weights), \<^verbatim>\<open>channel_manager_pick_copy_engines\<close>, picking in the order
  CPU\_TO\_GPU, GPU\_TO\_CPU, GPU\_INTERNAL, GPU\_TO\_GPU, MEMOPS with each pick counted
  in the usage of its engine, prefers CE 0 for CPU\_TO\_GPU, CE 0 for GPU\_TO\_CPU, CE 2
  for GPU\_INTERNAL, CE 2 for GPU\_TO\_GPU and CE 1 for MEMOPS; and
  \<^verbatim>\<open>channel_manager_create_pools\<close> (no proxy pool, every creation succeeding) creates as
  many pools as there are usable engines, three, one per engine, and gives each type the
  pool of its engine.
\<close>

theorem three_ce_selection:
  assumes "hweight32 mask1 = 8" "hweight32 mask2 = 16"
  shows "(\<exists>preferred_ce.
            channel_manager_pick_copy_engines NV_OK (three_ce_caps mask1 mask2) 0
              (replicate UVM_CHANNEL_TYPE_COUNT UVM_COPY_ENGINE_COUNT_MAX)
              = Inr (NV_OK, 7, preferred_ce)
          \<and> preferred_ce ! channel_type_index UVM_CHANNEL_TYPE_CPU_TO_GPU = 0
          \<and> preferred_ce ! channel_type_index UVM_CHANNEL_TYPE_GPU_TO_CPU = 0
          \<and> preferred_ce ! channel_type_index UVM_CHANNEL_TYPE_GPU_INTERNAL = 2
          \<and> preferred_ce ! channel_type_index UVM_CHANNEL_TYPE_GPU_TO_GPU = 2
          \<and> preferred_ce ! channel_type_index UVM_CHANNEL_TYPE_MEMOPS = 1)
       \<and> (\<exists>manager.
            channel_manager_create_pools (new_manager c) False (three_ce_env mask1 mask2)
              = Inr (NV_OK, manager)
          \<and> num_channel_pools manager = 3
          \<and> bitmap_weight (ce_mask manager) (unat UVM_COPY_ENGINE_COUNT_MAX) = 3
          \<and> map ce_index (channel_pools manager) = [0, 1, 2]
          \<and> map is_proxy (channel_pools manager) = [False, False, False]
          \<and> default_for_type manager = [Some 0, Some 0, Some 2, Some 1, Some 2])"
proof (rule conjI)
  show "\<exists>preferred_ce.
            channel_manager_pick_copy_engines NV_OK (three_ce_caps mask1 mask2) 0
              (replicate UVM_CHANNEL_TYPE_COUNT UVM_COPY_ENGINE_COUNT_MAX)
              = Inr (NV_OK, 7, preferred_ce)
          \<and> preferred_ce ! channel_type_index UVM_CHANNEL_TYPE_CPU_TO_GPU = 0
          \<and> preferred_ce ! channel_type_index UVM_CHANNEL_TYPE_GPU_TO_CPU = 0
          \<and> preferred_ce ! channel_type_index UVM_CHANNEL_TYPE_GPU_INTERNAL = 2
          \<and> preferred_ce ! channel_type_index UVM_CHANNEL_TYPE_GPU_TO_GPU = 2
          \<and> preferred_ce ! channel_type_index UVM_CHANNEL_TYPE_MEMOPS = 1"
    using pick_three [OF assms]
    by (simp add: UVM_CHANNEL_TYPE_COUNT_def UVM_COPY_ENGINE_COUNT_MAX_def replicate5)
next
  from create_pools_three [OF assms, of c] obtain manager where
    m: "channel_manager_create_pools (new_manager c) False (three_ce_env mask1 mask2)
          = Inr (NV_OK, manager)
        \<and> ce_mask manager = 7
        \<and> num_channel_pools manager = 3
        \<and> map ce_index (channel_pools manager) = [0, 1, 2]
        \<and> map is_proxy (channel_pools manager) = [False, False, False]
        \<and> map num_channels (channel_pools manager) = [2, 2, 2]
        \<and> default_for_type manager = [Some 0, Some 0, Some 2, Some 1, Some 2]" ..
  then have "bitmap_weight (ce_mask manager) (unat UVM_COPY_ENGINE_COUNT_MAX) = 3"
    by (simp add: UVM_COPY_ENGINE_COUNT_MAX_def ce_mask_7)
  with m show "\<exists>manager.
            channel_manager_create_pools (new_manager c) False (three_ce_env mask1 mask2)
              = Inr (NV_OK, manager)
          \<and> num_channel_pools manager = 3
          \<and> bitmap_weight (ce_mask manager) (unat UVM_COPY_ENGINE_COUNT_MAX) = 3
          \<and> map ce_index (channel_pools manager) = [0, 1, 2]
          \<and> map is_proxy (channel_pools manager) = [False, False, False]
          \<and> default_for_type manager = [Some 0, Some 0, Some 2, Some 1, Some 2]"
    by (intro exI [of _ manager]) simp
qed

lemma hweight32_examples: "hweight32 255 = 8" "hweight32 65535 = 16"
  by (code_simp+)

theorem three_ce_selection_witness:
  "(\<exists>preferred_ce.
       channel_manager_pick_copy_engines NV_OK (three_ce_caps 255 65535) 0
         (replicate UVM_CHANNEL_TYPE_COUNT UVM_COPY_ENGINE_COUNT_MAX)
         = Inr (NV_OK, 7, preferred_ce)
     \<and> preferred_ce ! channel_type_index UVM_CHANNEL_TYPE_CPU_TO_GPU = 0
     \<and> preferred_ce ! channel_type_index UVM_CHANNEL_TYPE_GPU_TO_CPU = 0
     \<and> preferred_ce ! channel_type_index UVM_CHANNEL_TYPE_GPU_INTERNAL = 2
     \<and> preferred_ce ! channel_type_index UVM_CHANNEL_TYPE_GPU_TO_GPU = 2
     \<and> preferred_ce ! channel_type_index UVM_CHANNEL_TYPE_MEMOPS = 1)
   \<and> (\<exists>manager.
         channel_manager_create_pools
           (new_manager \<lparr>conf_num_gpfifo_entries = 1024,
              conf_gpfifo_loc = UVM_BUFFER_LOCATION_VID,
              conf_gpput_loc = UVM_BUFFER_LOCATION_VID,
              conf_pushbuffer_loc = UVM_BUFFER_LOCATION_SYS\<rparr>)
           False (three_ce_env 255 65535) = Inr (NV_OK, manager)
       \<and> num_channel_pools manager = 3
       \<and> bitmap_weight (ce_mask manager) (unat UVM_COPY_ENGINE_COUNT_MAX) = 3
       \<and> map ce_index (channel_pools manager) = [0, 1, 2]
       \<and> map is_proxy (channel_pools manager) = [False, False, False]
       \<and> default_for_type manager = [Some 0, Some 0, Some 2, Some 1, Some 2])"
  by (rule three_ce_selection [OF hweight32_examples])

subsection \<open>The push-info free list at begin-push\<close>

lemma init_num_gpfifo_entries_range:
  "32 \<le> unat (init_num_gpfifo_entries v) \<and> unat (init_num_gpfifo_entries v) \<le> 2 ^ 20"
  unfolding init_num_gpfifo_entries_unat by (simp add: Let_def)

lemma fold_append_index: "fold (\<lambda>i free. free @ [i]) xs acc = acc @ xs"
  by (induction xs arbitrary: acc) simp_all

lemma ring_distance_unique:
  fixes n g p :: NvU32
  assumes "g < n" "d < unat n" "(unat g + d) mod unat n = unat p"
  shows "ring_distance n g p = d"
proof -
  let ?n = "unat n" and ?g = "unat g" and ?p = "unat p"
  have gn: "?g < ?n" using assms(1) by (simp add: word_less_nat_alt)
  show ?thesis
  proof (cases "?g + d < ?n")
    case True
    then have "?p = ?g + d" using assms(3) by simp
    then have "?p + ?n - ?g = d + ?n" by simp
    then show ?thesis using assms(2) by (simp add: ring_distance_def)
  next
    case False
    then have "(?g + d) mod ?n = ?g + d - ?n" using gn assms(2) by (simp add: mod_if)
    then have "?p + ?n - ?g = d" using assms(3) False by simp
    then show ?thesis using assms(2) by (simp add: ring_distance_def)
  qed
qed

lemma ring_distance_add:
  fixes n g p :: NvU32
  assumes "g < n" "p < n"
  shows "(unat g + ring_distance n g p) mod unat n = unat p"
proof -
  let ?n = "unat n" and ?g = "unat g" and ?p = "unat p"
  have gn: "?g < ?n" and pn: "?p < ?n"
    using assms by (simp_all add: word_less_nat_alt)
  show ?thesis
  proof (cases "?g \<le> ?p")
    case True
    then have e: "?p + ?n - ?g = (?p - ?g) + ?n" by simp
    have "ring_distance n g p = ?p - ?g"
      unfolding ring_distance_def e using pn by simp
    then show ?thesis using True pn by simp
  next
    case False
    then have "?p + ?n - ?g < ?n" using gn by simp
    then have "ring_distance n g p = ?p + ?n - ?g" by (simp add: ring_distance_def)
    then have "?g + ring_distance n g p = ?p + ?n" using gn by simp
    then show ?thesis using pn by simp
  qed
qed

lemma ring_distance_less:
  fixes n g p :: NvU32
  assumes "g < n"
  shows "ring_distance n g p < unat n"
proof -
  from assms have "0 < unat n" by (simp add: word_less_nat_alt)
  then show ?thesis by (simp add: ring_distance_def)
qed

lemma ring_distance_put:
  fixes n g p :: NvU32
  assumes "g < n" "p < n" "Suc (ring_distance n g p) < unat n"
  shows "(p + 1) mod n < n \<and> ring_distance n g ((p + 1) mod n) = Suc (ring_distance n g p)"
proof -
  let ?n = "unat n" and ?g = "unat g" and ?p = "unat p"
  have pn: "?p < ?n" using assms by (simp add: word_less_nat_alt)
  have n32: "?n < 2 ^ 32"
    using unsigned_less [of n, where 'a = nat] by simp
  have p1: "unat (p + 1) = ?p + 1"
    using pn n32 by (simp add: unat_word_ariths)
  have p': "unat ((p + 1) mod n) = (?p + 1) mod ?n"
    by (simp add: unat_mod p1)
  have lt: "(p + 1) mod n < n"
    using pn by (simp add: word_less_nat_alt p')
  have "(?g + Suc (ring_distance n g p)) mod ?n = ((?g + ring_distance n g p) mod ?n + 1) mod ?n"
    by (simp add: mod_simps)
  also have "\<dots> = (?p + 1) mod ?n"
    by (simp add: ring_distance_add [OF assms(1,2)])
  finally have "(?g + Suc (ring_distance n g p)) mod ?n = unat ((p + 1) mod n)"
    by (simp add: p')
  from ring_distance_unique [OF assms(1,3) this] lt show ?thesis by simp
qed

lemma reclaim_balance:
  assumes "reclaim completed_value mode n channel g = Inr (g', channel')"
    and "g < num_gpfifo_entries channel" "cpu_put channel < num_gpfifo_entries channel"
  shows "length (available_push_infos channel')
           + ring_distance (num_gpfifo_entries channel) g' (cpu_put channel)
         = length (available_push_infos channel)
           + ring_distance (num_gpfifo_entries channel) g (cpu_put channel)
       \<and> push_infos channel' = push_infos channel
       \<and> current_pushes_count channel' = current_pushes_count channel"
  using assms
proof (induction n arbitrary: channel g)
  case 0
  then show ?case by simp
next
  case (Suc n)
  show ?case
  proof (cases "g' = g \<and> channel' = channel")
    case True
    then show ?thesis by simp
  next
    case False
    with Suc.prems(1) obtain info where ne: "g \<noteq> cpu_put channel"
      and rec: "reclaim completed_value mode n
          ((call (Pushbuffer_mark_completed (gpfifo_entries channel ! unat g)) channel)
             \<lparr>available_push_infos := available_push_infos channel @ [info]\<rparr>)
          ((g + 1) mod num_gpfifo_entries channel) = Inr (g', channel')"
      by (auto simp: Let_def split: if_splits option.splits)
    let ?c1 = "(call (Pushbuffer_mark_completed (gpfifo_entries channel ! unat g)) channel)
             \<lparr>available_push_infos := available_push_infos channel @ [info]\<rparr>"
    have frame: "num_gpfifo_entries ?c1 = num_gpfifo_entries channel"
      "cpu_put ?c1 = cpu_put channel" "push_infos ?c1 = push_infos channel"
      "current_pushes_count ?c1 = current_pushes_count channel"
      "length (available_push_infos ?c1) = Suc (length (available_push_infos channel))"
      by (simp_all add: call_def)
    from ring_distance_step [OF Suc.prems(2,3) ne]
    have lt: "(g + 1) mod num_gpfifo_entries channel < num_gpfifo_entries channel"
      and d: "Suc (ring_distance (num_gpfifo_entries channel)
                ((g + 1) mod num_gpfifo_entries channel) (cpu_put channel))
              = ring_distance (num_gpfifo_entries channel) g (cpu_put channel)"
      by simp_all
    from Suc.IH [OF rec] lt Suc.prems(3) frame
    have "length (available_push_infos channel')
           + ring_distance (num_gpfifo_entries channel) g' (cpu_put channel)
         = Suc (length (available_push_infos channel))
           + ring_distance (num_gpfifo_entries channel)
               ((g + 1) mod num_gpfifo_entries channel) (cpu_put channel)
       \<and> push_infos channel' = push_infos channel
       \<and> current_pushes_count channel' = current_pushes_count channel"
      by simp
    with d show ?thesis by simp
  qed
qed

lemma run_invariant_created:
  assumes "channel_create (init_num_gpfifo_entries param) with_procfs env = Inr channel"
  shows "run_invariant \<lparr>run_channel = channel, reserved = 0, begun = []\<rparr>"
proof -
  let ?n = "init_num_gpfifo_entries param"
  from assms have f: "num_gpfifo_entries channel = ?n" "cpu_put channel = 0"
    "gpu_get channel = 0" "current_pushes_count channel = 0"
    "length (push_infos channel) = unat ?n"
    "available_push_infos channel = [0..<unat ?n]"
    by (auto simp: channel_create_def Let_def fold_append_index split: if_splits)
  note r = init_num_gpfifo_entries_range [of param]
  then have pos: "0 < ?n" by (simp add: word_less_nat_alt)
  from r f pos show ?thesis
    by (simp add: run_invariant_def ring_distance_self)
qed

lemma run_invariant_claim:
  assumes inv: "run_invariant s"
    and step: "try_claim_channel (run_channel s) = Inr (claimed, channel')"
  shows "run_invariant (s\<lparr>run_channel := channel',
                          reserved := reserved s + (if claimed then 1 else 0)\<rparr>)"
proof (cases claimed)
  case False
  with step have "channel' = run_channel s"
    by (auto simp: try_claim_channel_def split: sum.splits if_splits)
  with inv False show ?thesis by (simp add: run_invariant_def)
next
  case True
  let ?ch = "run_channel s"
  let ?n = "num_gpfifo_entries ?ch"
  let ?d = "ring_distance ?n (gpu_get ?ch) (cpu_put ?ch)"
  let ?c = "unat (current_pushes_count ?ch)"
  from inv have n: "32 \<le> unat ?n" "unat ?n \<le> 2 ^ 20"
    and p: "cpu_put ?ch < ?n" and g: "gpu_get ?ch < ?n"
    and room: "?c + ?d < unat ?n"
    by (simp_all add: run_invariant_def Let_def)
  from n have nz: "?n \<noteq> 0" by auto
  from step True nz have ch': "channel' = ?ch\<lparr>current_pushes_count := current_pushes_count ?ch + 1\<rparr>"
    and avail: "(cpu_put ?ch + current_pushes_count ?ch + 1) mod ?n \<noteq> gpu_get ?ch"
    by (auto simp: try_claim_channel_def channel_is_available_def Let_def split: if_splits)
  have pn: "unat (cpu_put ?ch) < unat ?n" and gn: "unat (gpu_get ?ch) < unat ?n"
    using p g by (simp_all add: word_less_nat_alt)
  have small: "unat (cpu_put ?ch) + ?c + 1 < 2 ^ 32"
  proof -
    have "unat (cpu_put ?ch) + ?c + 1 < 2 * 2 ^ 20" using pn room n by simp
    also have "\<dots> < (2::nat) ^ 32" by simp
    finally show ?thesis .
  qed
  then have sum: "unat (cpu_put ?ch + current_pushes_count ?ch + 1) = unat (cpu_put ?ch) + ?c + 1"
    by (simp add: unat_word_ariths)
  have c1: "unat (current_pushes_count ?ch + 1) = ?c + 1"
    using small by (simp add: unat_word_ariths)
  have "?c + ?d + 1 \<noteq> unat ?n"
  proof
    assume full: "?c + ?d + 1 = unat ?n"
    have "(unat (cpu_put ?ch) + ?c + 1) mod unat ?n
        = ((unat (gpu_get ?ch) + ?d) mod unat ?n + (?c + 1)) mod unat ?n"
      by (simp add: ring_distance_add [OF g p] add.assoc)
    also have "\<dots> = (unat (gpu_get ?ch) + ?d + (?c + 1)) mod unat ?n"
      by (rule mod_add_left_eq)
    also have "unat (gpu_get ?ch) + ?d + (?c + 1) = unat (gpu_get ?ch) + unat ?n"
      using full by simp
    also have "(unat (gpu_get ?ch) + unat ?n) mod unat ?n = unat (gpu_get ?ch)"
      using gn by simp
    finally have "unat ((cpu_put ?ch + current_pushes_count ?ch + 1) mod ?n) = unat (gpu_get ?ch)"
      by (simp add: unat_mod sum)
    with avail show False by (simp add: word_unat_eq_iff)
  qed
  with room have "?c + 1 + ?d < unat ?n" by simp
  with inv True ch' c1 show ?thesis
    by (simp add: run_invariant_def Let_def)
qed

lemma run_invariant_begin_push:
  assumes inv: "run_invariant s" and res: "0 < reserved s"
    and step: "uvm_channel_begin_push pushbuffer_begin_push push (run_channel s)
                 = Inr (status, push', channel')"
  shows "run_invariant (s\<lparr>run_channel := channel', reserved := reserved s - 1,
           begun := (if status = NV_OK then push' # begun s else begun s)\<rparr>)"
proof (cases "pushbuffer_begin_push = NV_OK")
  case False
  with step have "channel' = run_channel s" "status \<noteq> NV_OK"
    by (auto simp: uvm_channel_begin_push_def)
  with inv res show ?thesis by (auto simp: run_invariant_def Let_def)
next
  case True
  with step obtain info rest where
    fl: "available_push_infos (run_channel s) = info # rest"
    and ch': "channel' = (run_channel s)\<lparr>available_push_infos := rest\<rparr>"
    and st: "status = NV_OK"
    by (auto simp: uvm_channel_begin_push_def channel_get_available_push_info_index_def Let_def
        split: list.splits if_splits sum.splits)
  with inv res show ?thesis by (auto simp: run_invariant_def Let_def)
qed

lemma run_invariant_end_push:
  assumes inv: "run_invariant s" and mem: "p \<in> set (begun s)"
    and step: "uvm_channel_end_push max_push_size push (run_channel s) = Inr (push', channel')"
  shows "run_invariant (s\<lparr>run_channel := channel', begun := remove1 p (begun s)\<rparr>)"
proof -
  let ?ch = "run_channel s"
  let ?n = "num_gpfifo_entries ?ch"
  let ?d = "ring_distance ?n (gpu_get ?ch) (cpu_put ?ch)"
  let ?c = "unat (current_pushes_count ?ch)"
  from inv have p: "cpu_put ?ch < ?n" and g: "gpu_get ?ch < ?n"
    and room: "?c + ?d < unat ?n"
    and cnt: "reserved s + length (begun s) \<le> ?c"
    by (simp_all add: run_invariant_def Let_def)
  from mem have b: "0 < length (begun s)" by (cases "begun s") auto
  from mem have lb: "length (remove1 p (begun s)) = length (begun s) - 1"
    by (simp add: length_remove1)
  from b cnt have cpos: "1 \<le> ?c" by linarith
  then have c1: "unat (current_pushes_count ?ch - 1) = ?c - 1"
    by (simp add: unat_sub word_le_nat_alt)
  from cpos room have "Suc ?d < unat ?n" by simp
  from ring_distance_put [OF g p this]
  have put: "(cpu_put ?ch + 1) mod ?n < ?n"
    "ring_distance ?n (gpu_get ?ch) ((cpu_put ?ch + 1) mod ?n) = Suc ?d"
    by simp_all
  from step have f: "num_gpfifo_entries channel' = ?n"
    "cpu_put channel' = (cpu_put ?ch + 1) mod ?n" "gpu_get channel' = gpu_get ?ch"
    "current_pushes_count channel' = current_pushes_count ?ch - 1"
    "push_infos channel' = push_infos ?ch"
    "available_push_infos channel' = available_push_infos ?ch"
    by (auto simp: uvm_channel_end_push_def call_def Let_def split: if_splits)
  from inv have part: "length (available_push_infos ?ch) + length (begun s) + ?d = unat ?n"
    and basics: "32 \<le> unat ?n" "unat ?n \<le> 2 ^ 20" "length (push_infos ?ch) = unat ?n"
    by (simp_all add: run_invariant_def Let_def)
  have i1: "length (available_push_infos channel') + length (remove1 p (begun s))
        + ring_distance (num_gpfifo_entries channel') (gpu_get channel') (cpu_put channel')
      = unat (num_gpfifo_entries channel')"
    unfolding f put(2) lb using part b by linarith
  have i2: "reserved s + length (remove1 p (begun s)) \<le> unat (current_pushes_count channel')"
    unfolding f c1 lb using cnt b by linarith
  have i3: "unat (current_pushes_count channel')
        + ring_distance (num_gpfifo_entries channel') (gpu_get channel') (cpu_put channel')
      < unat (num_gpfifo_entries channel')"
    unfolding f put(2) c1 using room cpos by linarith
  from i1 i2 i3 basics put(1) g f show ?thesis
    by (simp add: run_invariant_def Let_def)
qed

lemma run_invariant_update_progress:
  assumes inv: "run_invariant s"
    and step: "uvm_channel_update_progress_with_max (run_channel s) completed_value
                 max_to_complete mode = Inr (pending_gpfifos, channel')"
  shows "run_invariant (s\<lparr>run_channel := channel'\<rparr>)"
proof -
  let ?ch = "run_channel s"
  let ?n = "num_gpfifo_entries ?ch"
  from inv have p: "cpu_put ?ch < ?n" and g: "gpu_get ?ch < ?n"
    by (simp_all add: run_invariant_def Let_def)
  from step obtain g' c1 where
    r: "reclaim completed_value mode (unat max_to_complete) ?ch (gpu_get ?ch) = Inr (g', c1)"
    and ch': "channel' = c1\<lparr>gpu_get := g'\<rparr>"
    by (auto simp: with_max_reclaim_from reclaim_from_def split: sum.splits)
  note fr = reclaim_frame [OF r]
  note pr = reclaim_progress [OF r g p]
  note ba = reclaim_balance [OF r g p]
  from inv fr pr ba ch' show ?thesis
    by (auto simp: run_invariant_def Let_def)
qed

lemma channel_runs_invariant: "channel_runs s \<Longrightarrow> run_invariant s"
proof (induction rule: channel_runs.induct)
  case (created param with_procfs env channel)
  then show ?case by (rule run_invariant_created)
next
  case (claim s claimed channel')
  then show ?case by (intro run_invariant_claim)
next
  case (begin_push s pushbuffer_begin_push push status push' channel')
  then show ?case by (intro run_invariant_begin_push)
next
  case (end_push s p push max_push_size push' channel')
  then show ?case by (intro run_invariant_end_push)
next
  case (update_progress s completed_value max_to_complete mode pending_gpfifos channel')
  then show ?case by (intro run_invariant_update_progress)
qed

text \<open>
  C9. In every run of a channel created with as many push-info records as ring slots,
  whenever a claimed slot is waiting for its push to begin, the free list of push-info
  records is not empty: \<^verbatim>\<open>channel_get_available_push_info_index\<close>, and with it
  \<^verbatim>\<open>uvm_channel_begin_push\<close>, never fails the assertion that the detached head is not
  \<^verbatim>\<open>NULL\<close>.
\<close>

theorem begin_push_finds_push_info:
  assumes "channel_runs s" and "0 < reserved s"
  shows "length (push_infos (run_channel s)) = unat (num_gpfifo_entries (run_channel s))
       \<and> available_push_infos (run_channel s) \<noteq> []
       \<and> channel_get_available_push_info_index (run_channel s)
            \<noteq> Inl (Assertion_failed ''push_info != NULL'')
       \<and> uvm_channel_begin_push pushbuffer_begin_push push (run_channel s)
            \<noteq> Inl (Assertion_failed ''push_info != NULL'')"
proof -
  let ?ch = "run_channel s"
  let ?n = "num_gpfifo_entries ?ch"
  let ?d = "ring_distance ?n (gpu_get ?ch) (cpu_put ?ch)"
  from channel_runs_invariant [OF assms(1)]
  have len: "length (push_infos ?ch) = unat ?n"
    and part: "length (available_push_infos ?ch) + length (begun s) + ?d = unat ?n"
    and cnt: "reserved s + length (begun s) \<le> unat (current_pushes_count ?ch)"
    and room: "unat (current_pushes_count ?ch) + ?d < unat ?n"
    by (simp_all add: run_invariant_def Let_def)
  from part cnt room assms(2) have "0 < length (available_push_infos ?ch)" by linarith
  then have ne: "available_push_infos ?ch \<noteq> []" by simp
  then have "channel_get_available_push_info_index ?ch
      \<noteq> Inl (Assertion_failed ''push_info != NULL'')"
    by (auto simp: channel_get_available_push_info_index_def split: list.splits)
  with len ne show ?thesis
    by (auto simp: uvm_channel_begin_push_def Let_def split: sum.splits)
qed

theorem begin_push_finds_push_info_witness:
  "\<exists>s. channel_runs s \<and> 0 < reserved s
     \<and> available_push_infos (run_channel s) \<noteq> []
     \<and> uvm_channel_begin_push NV_OK example_push (run_channel s)
          \<noteq> Inl (Assertion_failed ''push_info != NULL'')"
proof -
  obtain ch where c: "channel_create (init_num_gpfifo_entries 1024) False ok_env = Inr ch"
    by (simp add: channel_create_def ok_env_def)
  have n: "init_num_gpfifo_entries 1024 = 1024"
    by (simp add: init_num_gpfifo_entries_def UVM_CHANNEL_NUM_GPFIFO_ENTRIES_MIN_def
        UVM_CHANNEL_NUM_GPFIFO_ENTRIES_MAX_def is_power_of_2_def)
  from c have f: "num_gpfifo_entries ch = 1024" "cpu_put ch = 0" "gpu_get ch = 0"
    "current_pushes_count ch = 0"
    by (auto simp: channel_create_def ok_env_def Let_def n)
  have t: "try_claim_channel ch = Inr (True, ch\<lparr>current_pushes_count := 1\<rparr>)"
    by (simp add: try_claim_channel_def channel_is_available_def f)
  have r0: "channel_runs \<lparr>run_channel = ch, reserved = 0, begun = []\<rparr>"
    by (rule channel_runs.created [OF c])
  from channel_runs.claim [OF r0, of True "ch\<lparr>current_pushes_count := 1\<rparr>"] t
  have r1: "channel_runs \<lparr>run_channel = ch\<lparr>current_pushes_count := 1\<rparr>,
                           reserved = 1, begun = []\<rparr>"
    by simp
  have pos: "0 < reserved \<lparr>run_channel = ch\<lparr>current_pushes_count := 1\<rparr>,
                           reserved = 1, begun = []\<rparr>"
    by simp
  from begin_push_finds_push_info [OF r1 pos, of NV_OK example_push] r1 pos
  show ?thesis
    by (intro exI [of _ "\<lparr>run_channel = ch\<lparr>current_pushes_count := 1\<rparr>,
                           reserved = 1, begun = []\<rparr>"]) simp
qed

subsection \<open>Channel status and the fatal entry\<close>

lemma reclaim_first_pending:
  assumes "reclaim completed_value UVM_CHANNEL_UPDATE_MODE_COMPLETED n channel g = Inr (g', channel')"
    and "g < num_gpfifo_entries channel" "cpu_put channel < num_gpfifo_entries channel"
    and "ring_distance (num_gpfifo_entries channel) g (cpu_put channel) \<le> n"
  shows "case find (\<lambda>slot. completed_value
                    < tracking_semaphore_value (gpfifo_entries channel ! unat slot))
              (ring_walk (num_gpfifo_entries channel) g
                 (ring_distance (num_gpfifo_entries channel) g (cpu_put channel))) of
           None \<Rightarrow> g' = cpu_put channel
         | Some slot \<Rightarrow> g' = slot \<and> slot \<noteq> cpu_put channel"
  using assms
proof (induction n arbitrary: channel g)
  case 0
  then have "g = cpu_put channel" by (auto intro: ring_distance_0)
  with 0 show ?case by (auto simp: ring_distance_self)
next
  case (Suc n)
  show ?case
  proof (cases "g = cpu_put channel")
    case True
    with Suc.prems(1) show ?thesis by (auto simp: ring_distance_self)
  next
    case False
    let ?N = "num_gpfifo_entries channel"
    let ?g1 = "(g + 1) mod ?N"
    from ring_distance_step [OF Suc.prems(2,3) False]
    have lt: "?g1 < ?N"
      and d: "ring_distance ?N g (cpu_put channel) = Suc (ring_distance ?N ?g1 (cpu_put channel))"
      by simp_all
    show ?thesis
    proof (cases "completed_value < tracking_semaphore_value (gpfifo_entries channel ! unat g)")
      case True
      with Suc.prems(1) False have "g' = g"
        by (auto simp: Let_def split: if_splits)
      with True False show ?thesis by (simp add: d)
    next
      case pending: False
      with Suc.prems(1) False obtain info where
        rec: "reclaim completed_value UVM_CHANNEL_UPDATE_MODE_COMPLETED n
          ((call (Pushbuffer_mark_completed (gpfifo_entries channel ! unat g)) channel)
             \<lparr>available_push_infos := available_push_infos channel @ [info]\<rparr>)
          ?g1 = Inr (g', channel')"
        by (auto simp: Let_def split: if_splits option.splits)
      let ?c1 = "(call (Pushbuffer_mark_completed (gpfifo_entries channel ! unat g)) channel)
             \<lparr>available_push_infos := available_push_infos channel @ [info]\<rparr>"
      have frame: "num_gpfifo_entries ?c1 = ?N" "cpu_put ?c1 = cpu_put channel"
        "gpfifo_entries ?c1 = gpfifo_entries channel"
        by (simp_all add: call_def)
      have "ring_distance ?N ?g1 (cpu_put channel) \<le> n"
        using Suc.prems(4) d by simp
      with Suc.IH [OF rec] lt Suc.prems(3) frame
      have "case find (\<lambda>slot. completed_value
                    < tracking_semaphore_value (gpfifo_entries channel ! unat slot))
              (ring_walk ?N ?g1 (ring_distance ?N ?g1 (cpu_put channel))) of
           None \<Rightarrow> g' = cpu_put channel
         | Some slot \<Rightarrow> g' = slot \<and> slot \<noteq> cpu_put channel"
        by (simp cong: option.case_cong)
      with pending show ?thesis by (simp add: d)
    qed
  qed
qed

lemma pending_gpfifos_of_0:
  assumes "gpu_get channel < num_gpfifo_entries channel"
    and "cpu_put channel < num_gpfifo_entries channel"
  shows "pending_gpfifos_of channel = 0 \<longleftrightarrow> gpu_get channel = cpu_put channel"
proof (cases "gpu_get channel \<le> cpu_put channel")
  case True
  then show ?thesis by (auto simp: pending_gpfifos_of_def)
next
  case False
  let ?n = "unat (num_gpfifo_entries channel)" and ?g = "unat (gpu_get channel)"
    and ?p = "unat (cpu_put channel)"
  from assms False have o: "?p < ?g" "?g < ?n"
    by (simp_all add: word_less_nat_alt word_le_nat_alt)
  have n32: "?n < 2 ^ 32"
    using unsigned_less [of "num_gpfifo_entries channel", where 'a = nat] by simp
  have "unat (num_gpfifo_entries channel - gpu_get channel) = ?n - ?g"
    using o by (simp add: unat_sub word_le_nat_alt)
  then have "unat (num_gpfifo_entries channel - gpu_get channel + cpu_put channel)
      = ?n - ?g + ?p"
    using o n32 by (simp add: unat_word_ariths)
  then have "num_gpfifo_entries channel - gpu_get channel + cpu_put channel \<noteq> 0"
    using o by (metis add_is_0 unat_0 zero_less_diff less_numeral_extra(3))
  with False show ?thesis by (auto simp: pending_gpfifos_of_def)
qed

lemma first_pending_entry_is_first:
  assumes p: "cpu_put channel < num_gpfifo_entries channel"
    and g: "gpu_get channel < num_gpfifo_entries channel"
    and r: "uvm_channel_get_first_pending_entry channel completed_value = Inr (entry, channel')"
  shows "entry = first_pending_slot channel completed_value
       \<and> (\<forall>slot. entry = Some slot \<longrightarrow> slot = gpu_get channel')
       \<and> gpfifo_entries channel' = gpfifo_entries channel
       \<and> reclaim_from completed_value UVM_CHANNEL_UPDATE_MODE_COMPLETED
            (unat (num_gpfifo_entries channel)) channel = Inr channel'"
proof -
  let ?N = "num_gpfifo_entries channel"
  from r obtain g' c1 where
    rc: "reclaim completed_value UVM_CHANNEL_UPDATE_MODE_COMPLETED (unat ?N) channel
           (gpu_get channel) = Inr (g', c1)"
    and ch': "channel' = c1\<lparr>gpu_get := g'\<rparr>"
    by (auto simp: uvm_channel_get_first_pending_entry_def channel_update_progress_all_def
        with_max_reclaim_from reclaim_from_def split: sum.splits if_splits)
  note fr = reclaim_frame [OF rc]
  note pr = reclaim_progress [OF rc g p]
  have le: "ring_distance ?N (gpu_get channel) (cpu_put channel) \<le> unat ?N"
    using ring_distance_less [OF g, of "cpu_put channel"] by simp
  note fp = reclaim_first_pending [OF rc g p le]
  have rf: "reclaim_from completed_value UVM_CHANNEL_UPDATE_MODE_COMPLETED (unat ?N) channel
      = Inr channel'"
    by (simp add: reclaim_from_def rc ch')
  have f': "gpu_get channel' = g'" "cpu_put channel' = cpu_put channel"
    "num_gpfifo_entries channel' = ?N" "gpfifo_entries channel' = gpfifo_entries channel"
    using fr ch' by simp_all
  have zero: "pending_gpfifos_of channel' = 0 \<longleftrightarrow> g' = cpu_put channel"
    using pending_gpfifos_of_0 [of channel'] f' pr p by simp
  have e: "entry = (if g' = cpu_put channel then None else Some g')"
    using r rf zero f'
    by (auto simp: uvm_channel_get_first_pending_entry_def channel_update_progress_all_def
        with_max_reclaim_from split: if_splits)
  show ?thesis
  proof (cases "first_pending_slot channel completed_value")
    case None
    with fp have "g' = cpu_put channel"
      by (simp add: first_pending_slot_def slots_in_flight_def)
    with e None f' rf show ?thesis by simp
  next
    case (Some slot)
    with fp have "g' = slot" "slot \<noteq> cpu_put channel"
      by (simp_all add: first_pending_slot_def slots_in_flight_def)
    with e Some f' rf show ?thesis by simp
  qed
qed

lemma first_pending_slot_pending:
  "first_pending_slot channel completed_value = Some slot
   \<Longrightarrow> completed_value < tracking_semaphore_value (gpfifo_entries channel ! unat slot)
     \<and> slot \<in> set (slots_in_flight channel)"
  by (auto simp: first_pending_slot_def find_Some_iff)

lemma first_pending_slot_call:
  "first_pending_slot (call c channel) completed_value = first_pending_slot channel completed_value"
  by (simp add: first_pending_slot_def slots_in_flight_def call_def)

lemma check_errors_report:
  assumes err: "errorNotifier_status channel \<noteq> 0"
    and p: "cpu_put channel < num_gpfifo_entries channel"
    and g: "gpu_get channel < num_gpfifo_entries channel"
    and r: "uvm_channel_check_errors gpu completed_value fatal_error channel
              = Inr (status, channel', fatal_error')"
  shows "status = uvm_channel_get_status gpu channel \<and> status \<noteq> NV_OK
       \<and> fatal_error' = (if fatal_error = NV_OK then status else fatal_error)
       \<and> fatal_error' \<noteq> NV_OK
       \<and> (\<exists>channel2.
             uvm_channel_get_fatal_entry gpu (call Err_print_channel_error channel)
               completed_value = Inr (first_pending_slot channel completed_value, channel2)
           \<and> (case first_pending_slot channel completed_value of
                 None \<Rightarrow> channel' = channel2
               | Some slot \<Rightarrow>
                   slot = gpu_get channel'
                   \<and> completed_value
                       < tracking_semaphore_value (gpfifo_entries channel' ! unat slot)
                   \<and> (\<exists>info. push_info (gpfifo_entries channel' ! unat slot) = Some info
                          \<and> channel' = call (Err_print_fatal_push info) channel2)))"
proof -
  let ?c1 = "call Err_print_channel_error channel"
  let ?st = "uvm_channel_get_status gpu channel"
  from err have st: "?st \<noteq> NV_OK" "uvm_channel_get_status gpu ?c1 = ?st"
    by (auto simp: uvm_channel_get_status_def call_def)
  from r st obtain entry channel2 where
    fe: "uvm_channel_get_fatal_entry gpu ?c1 completed_value = Inr (entry, channel2)"
    by (auto simp: uvm_channel_check_errors_def Let_def split: sum.splits if_splits)
  then have fp: "uvm_channel_get_first_pending_entry ?c1 completed_value = Inr (entry, channel2)"
    using st by (simp add: uvm_channel_get_fatal_entry_def)
  have p1: "cpu_put ?c1 < num_gpfifo_entries ?c1" and g1: "gpu_get ?c1 < num_gpfifo_entries ?c1"
    using p g by (simp_all add: call_def)
  note fi = first_pending_entry_is_first [OF p1 g1 fp, unfolded first_pending_slot_call]
  from fi have e: "entry = first_pending_slot channel completed_value"
    and at: "\<forall>slot. entry = Some slot \<longrightarrow> slot = gpu_get channel2"
    by blast+
  from fi have "gpfifo_entries channel2 = gpfifo_entries ?c1" by blast
  then have ent: "gpfifo_entries channel2 = gpfifo_entries channel"
    by (simp add: call_def)
  have res: "status = ?st" "fatal_error' = (if fatal_error = NV_OK then ?st else fatal_error)"
    using r st
    by (auto simp: uvm_channel_check_errors_def uvm_global_set_fatal_error_def Let_def
        split: sum.splits if_splits option.splits)
  show ?thesis
  proof (cases entry)
    case None
    with r st fe have "channel' = channel2"
      by (auto simp: uvm_channel_check_errors_def Let_def)
    with None e fe res st show ?thesis by auto
  next
    case (Some slot)
    with r st fe obtain info where
      info: "push_info (gpfifo_entries channel2 ! unat slot) = Some info"
      and ch': "channel' = call (Err_print_fatal_push info) channel2"
      by (auto simp: uvm_channel_check_errors_def Let_def split: if_splits option.splits)
    from Some e have "first_pending_slot channel completed_value = Some slot" by simp
    from first_pending_slot_pending [OF this]
    have pend: "completed_value < tracking_semaphore_value (gpfifo_entries channel ! unat slot)"
      by simp
    from at Some have "slot = gpu_get channel2" by simp
    with Some e fe res st info ch' pend ent show ?thesis
      by (auto simp: call_def)
  qed
qed

text \<open>
  C6. \<^verbatim>\<open>uvm_channel_get_status\<close> returns \<^verbatim>\<open>NV_OK\<close> if and only if the channel's error
  notifier word is zero; when the word is not zero it returns the ECC error exactly
  when ECC is enabled and the ECC notifier is set at that moment, and the RC error
  otherwise.  On such an error, whenever \<^verbatim>\<open>uvm_channel_check_errors\<close> returns (on a
  channel whose indices lie in the ring) it returns that status and leaves the
  process-wide fatal flag raised, holding the status if the flag was clear; the fatal
  entry it gets from \<^verbatim>\<open>uvm_channel_get_fatal_entry\<close> is the first slot in flight, in
  ring order from \<open>gpu_get\<close>, whose tracking value is above the completed value: when
  there is one it is the slot at the new \<open>gpu_get\<close> and its push is the one reported,
  and when there is none nothing is reported.
\<close>

theorem channel_error_report:
  "(uvm_channel_get_status gpu channel = NV_OK \<longleftrightarrow> errorNotifier_status channel = 0)
   \<and> (errorNotifier_status channel \<noteq> 0 \<longrightarrow>
        uvm_channel_get_status gpu channel =
          (if ecc_enabled gpu \<and> ecc_error_notifier gpu \<noteq> 0 then NV_ERR_ECC_ERROR
           else NV_ERR_RC_ERROR))
   \<and> (errorNotifier_status channel \<noteq> 0
        \<and> cpu_put channel < num_gpfifo_entries channel
        \<and> gpu_get channel < num_gpfifo_entries channel
        \<and> uvm_channel_check_errors gpu completed_value fatal_error channel
              = Inr (status, channel', fatal_error') \<longrightarrow>
        status = uvm_channel_get_status gpu channel \<and> status \<noteq> NV_OK
        \<and> fatal_error' = (if fatal_error = NV_OK then status else fatal_error)
        \<and> fatal_error' \<noteq> NV_OK
        \<and> (\<exists>channel2.
             uvm_channel_get_fatal_entry gpu (call Err_print_channel_error channel)
               completed_value = Inr (first_pending_slot channel completed_value, channel2)
           \<and> (case first_pending_slot channel completed_value of
                 None \<Rightarrow> channel' = channel2
               | Some slot \<Rightarrow>
                   slot = gpu_get channel'
                   \<and> completed_value
                       < tracking_semaphore_value (gpfifo_entries channel' ! unat slot)
                   \<and> (\<exists>info. push_info (gpfifo_entries channel' ! unat slot) = Some info
                          \<and> channel' = call (Err_print_fatal_push info) channel2))))"
proof (intro conjI impI)
  show "uvm_channel_get_status gpu channel = NV_OK \<longleftrightarrow> errorNotifier_status channel = 0"
    by (simp add: uvm_channel_get_status_def)
  show "uvm_channel_get_status gpu channel =
          (if ecc_enabled gpu \<and> ecc_error_notifier gpu \<noteq> 0 then NV_ERR_ECC_ERROR
           else NV_ERR_RC_ERROR)" if "errorNotifier_status channel \<noteq> 0"
    using that by (simp add: uvm_channel_get_status_def)
next
  assume a: "errorNotifier_status channel \<noteq> 0
        \<and> cpu_put channel < num_gpfifo_entries channel
        \<and> gpu_get channel < num_gpfifo_entries channel
        \<and> uvm_channel_check_errors gpu completed_value fatal_error channel
              = Inr (status, channel', fatal_error')"
  then have a1: "errorNotifier_status channel \<noteq> 0"
    and a2: "cpu_put channel < num_gpfifo_entries channel"
    and a3: "gpu_get channel < num_gpfifo_entries channel"
    and a4: "uvm_channel_check_errors gpu completed_value fatal_error channel
              = Inr (status, channel', fatal_error')"
    by blast+
  note rep = check_errors_report [OF a1 a2 a3 a4]
  from rep show "status = uvm_channel_get_status gpu channel" by (elim conjE)
  from rep show "status \<noteq> NV_OK" by (elim conjE)
  from rep show "fatal_error' = (if fatal_error = NV_OK then status else fatal_error)"
    by (elim conjE)
  from rep show "fatal_error' \<noteq> NV_OK" by (elim conjE)
  from rep show "\<exists>channel2.
             uvm_channel_get_fatal_entry gpu (call Err_print_channel_error channel)
               completed_value = Inr (first_pending_slot channel completed_value, channel2)
           \<and> (case first_pending_slot channel completed_value of
                 None \<Rightarrow> channel' = channel2
               | Some slot \<Rightarrow>
                   slot = gpu_get channel'
                   \<and> completed_value
                       < tracking_semaphore_value (gpfifo_entries channel' ! unat slot)
                   \<and> (\<exists>info. push_info (gpfifo_entries channel' ! unat slot) = Some info
                          \<and> channel' = call (Err_print_fatal_push info) channel2))"
    by (elim conjE)
qed

lemma example_check_errors:
  "uvm_channel_check_errors example_gpu 2 NV_OK (example_channel\<lparr>errorNotifier_status := 1\<rparr>)
     = Inr (NV_ERR_ECC_ERROR,
            example_channel
              \<lparr>errorNotifier_status := 1,
               gpu_get := 2,
               available_push_infos := [3, 0, 1],
               external_calls := [Err_print_channel_error,
                                  Pushbuffer_mark_completed (example_entry 1 0),
                                  Pushbuffer_mark_completed (example_entry 2 1),
                                  Err_print_fatal_push 2]\<rparr>,
            NV_ERR_ECC_ERROR)"
  by (simp add: uvm_channel_check_errors_def uvm_channel_get_status_def
      uvm_channel_get_fatal_entry_def uvm_channel_get_first_pending_entry_def
      channel_update_progress_all_def uvm_channel_update_progress_with_max_def
      update_progress_loop.simps uvm_global_set_fatal_error_def
      example_channel_def example_entry_def example_gpu_def call_def Let_def)

lemma example_first_pending:
  "first_pending_slot (example_channel\<lparr>errorNotifier_status := 1\<rparr>) 2 = Some 2"
  by code_simp

theorem channel_error_report_witness:
  "uvm_channel_check_errors example_gpu 2 NV_OK (example_channel\<lparr>errorNotifier_status := 1\<rparr>)
     = Inr (NV_ERR_ECC_ERROR,
            example_channel
              \<lparr>errorNotifier_status := 1,
               gpu_get := 2,
               available_push_infos := [3, 0, 1],
               external_calls := [Err_print_channel_error,
                                  Pushbuffer_mark_completed (example_entry 1 0),
                                  Pushbuffer_mark_completed (example_entry 2 1),
                                  Err_print_fatal_push 2]\<rparr>,
            NV_ERR_ECC_ERROR)
   \<and> first_pending_slot (example_channel\<lparr>errorNotifier_status := 1\<rparr>) 2 = Some 2
   \<and> uvm_channel_get_status example_gpu (example_channel\<lparr>errorNotifier_status := 1\<rparr>)
       = NV_ERR_ECC_ERROR"
proof -
  have h: "errorNotifier_status (example_channel\<lparr>errorNotifier_status := 1\<rparr>) \<noteq> 0
        \<and> cpu_put (example_channel\<lparr>errorNotifier_status := 1\<rparr>)
            < num_gpfifo_entries (example_channel\<lparr>errorNotifier_status := 1\<rparr>)
        \<and> gpu_get (example_channel\<lparr>errorNotifier_status := 1\<rparr>)
            < num_gpfifo_entries (example_channel\<lparr>errorNotifier_status := 1\<rparr>)"
    by (simp add: example_channel_def)
  from channel_error_report [of example_gpu "example_channel\<lparr>errorNotifier_status := 1\<rparr>"
      2 NV_OK, THEN conjunct2, THEN conjunct2, rule_format, OF conjI [OF conjunct1 [OF h]
        conjI [OF conjunct1 [OF conjunct2 [OF h]] conjI [OF conjunct2 [OF conjunct2 [OF h]]
          example_check_errors]]]]
  have "NV_ERR_ECC_ERROR = uvm_channel_get_status example_gpu
          (example_channel\<lparr>errorNotifier_status := 1\<rparr>)"
    by (elim conjE)
  with example_check_errors example_first_pending show ?thesis by simp
qed

end
